theory Spec2Isabelle
  imports Complex_Main "HOL-Library.Word"
begin

section \<open>JavaScript numbers and the parameter clamps of the entry points\<close>

text \<open>
  A JavaScript number as the clamps see it: \<open>NaN\<close>, the two infinities, or a finite
  value. The conversions \<open>+s\<close>, \<open>parseInt\<close> and \<open>parseFloat\<close> are built-ins of the
  language; their result on the raw argument is the input of the functions below.
\<close>

datatype jsnum = NaN | NegInf | Fin real | PosInf

text \<open>\<open>Math.min\<close> and \<open>Math.max\<close>: \<open>NaN\<close> if either argument is \<open>NaN\<close>.\<close>

fun js_min :: "jsnum \<Rightarrow> jsnum \<Rightarrow> jsnum" where
  "js_min NaN b = NaN"
| "js_min a NaN = NaN"
| "js_min NegInf b = NegInf"
| "js_min a NegInf = NegInf"
| "js_min PosInf b = b"
| "js_min a PosInf = a"
| "js_min (Fin a) (Fin b) = Fin (min a b)"

fun js_max :: "jsnum \<Rightarrow> jsnum \<Rightarrow> jsnum" where
  "js_max NaN b = NaN"
| "js_max a NaN = NaN"
| "js_max PosInf b = PosInf"
| "js_max a PosInf = PosInf"
| "js_max NegInf b = b"
| "js_max a NegInf = a"
| "js_max (Fin a) (Fin b) = Fin (max a b)"

text \<open>\<open>a || b\<close> on numbers: \<open>NaN\<close> and \<open>0\<close> are falsy.\<close>

fun js_or :: "jsnum \<Rightarrow> jsnum \<Rightarrow> jsnum" where
  "js_or NaN b = b"
| "js_or (Fin a) b = (if a = 0 then b else Fin a)"
| "js_or a b = a"

text \<open>\<open>lo \<le> v \<le> hi\<close> for a number that is neither \<open>NaN\<close> nor infinite.\<close>

fun in_range :: "real \<Rightarrow> real \<Rightarrow> jsnum \<Rightarrow> bool" where
  "in_range lo hi (Fin v) = (lo \<le> v \<and> v \<le> hi)"
| "in_range lo hi v = False"

text \<open>
  \<open>makeStickerBorder\<close> (both copies):
  \<^verbatim>\<open>strokePx = Math.max(1, Math.min(500, +strokePx || 16));\<close>
  \<^verbatim>\<open>softness = Math.max(0.1, Math.min(5.0, +softness || 0.8));\<close>
  The argument is the value of \<open>+strokePx\<close>, respectively \<open>+softness\<close>.
\<close>

definition sticker_strokePx :: "jsnum \<Rightarrow> jsnum" where
  "sticker_strokePx raw = js_max (Fin 1) (js_min (Fin 500) (js_or raw (Fin 16)))"

definition sticker_softness :: "jsnum \<Rightarrow> jsnum" where
  "sticker_softness raw = js_max (Fin 0.1) (js_min (Fin 5.0) (js_or raw (Fin 0.8)))"

text \<open>
  \<open>add_bevel\<close>: \<^verbatim>\<open>function clamp(n,min,max){ return Math.max(min, Math.min(max, n)); }\<close>
  and, in \<open>parseArgs\<close>,
  \<^verbatim>\<open>bevelPx = clamp(parseInt(a[++i]||"4",10)||4, 1, 50);\<close>
  \<^verbatim>\<open>intensity = clamp(parseFloat(a[++i]||"0.35"), 0, 1);\<close>
  The argument is the value of \<open>parseInt\<close>, respectively \<open>parseFloat\<close>.
\<close>

definition clamp :: "jsnum \<Rightarrow> jsnum \<Rightarrow> jsnum \<Rightarrow> jsnum" where
  "clamp n lo hi = js_max lo (js_min hi n)"

definition bevel_bevelPx :: "jsnum \<Rightarrow> jsnum" where
  "bevel_bevelPx parsed = clamp (js_or parsed (Fin 4)) (Fin 1) (Fin 50)"

definition bevel_intensity :: "jsnum \<Rightarrow> jsnum" where
  "bevel_intensity parsed = clamp parsed (Fin 0) (Fin 1)"

section \<open>Raster buffers\<close>

type_synonym byte = "8 word"

text \<open>
  A row-major buffer of \<open>W * H\<close> cells filled by
  \<^verbatim>\<open>for (y = 0; y < H; y++) for (x = 0; x < W; x++) buf[y * W + x] = f(y, x)\<close>.
\<close>

definition raster :: "nat \<Rightarrow> nat \<Rightarrow> (nat \<Rightarrow> nat \<Rightarrow> 'a) \<Rightarrow> 'a list" where
  "raster W H f = concat (map (\<lambda>y. map (\<lambda>x. f y x) [0..<W]) [0..<H])"

lemma row_major_lt: "y < H \<Longrightarrow> x < W \<Longrightarrow> y * W + x < W * H" for x y W H :: nat
proof -
  assume a: "y < H" "x < W"
  have "y * W + x < y * W + W" using a by simp
  also have "\<dots> = Suc y * W" by simp
  also have "\<dots> \<le> H * W" using a by (intro mult_le_mono1) simp
  finally show ?thesis by (simp add: mult.commute)
qed

text \<open>\<open>Math.round\<close> on a finite number, and the store of a number into a byte buffer.\<close>

definition js_round :: "real \<Rightarrow> int" where
  "js_round v = \<lfloor>v + 1 / 2\<rfloor>"

definition to_byte :: "int \<Rightarrow> byte" where
  "to_byte k = word_of_int k"

section \<open>add_second_edge: chamfer distance field and ring alpha\<close>

text \<open>\<^verbatim>\<open>mask[i] = expanded[p + 3] > 0 ? 1 : 0\<close> with \<open>p = 4 * i\<close>.\<close>

definition edge_mask :: "byte list \<Rightarrow> nat \<Rightarrow> byte list" where
  "edge_mask expanded n = map (\<lambda>i. if expanded ! (4 * i + 3) > 0 then 1 else 0) [0..<n]"

text \<open>\<^verbatim>\<open>const INF = 1e9;\<close>\<close>

definition df_INF :: real where
  "df_INF = 10 ^ 9"

text \<open>\<^verbatim>\<open>df[i] = mask[i] ? 0 : INF\<close>. The distances are real numbers: the rounding of
  \<open>Float32Array\<close> stores and of \<open>Math.SQRT2\<close> is not modelled.\<close>

definition edge_df_init :: "byte list \<Rightarrow> real list" where
  "edge_df_init msk = map (\<lambda>m. if m \<noteq> 0 then 0 else df_INF) msk"

text \<open>\<^verbatim>\<open>df[i] = Math.min(df[i], df[j] + w)\<close>\<close>

definition relax :: "nat \<Rightarrow> nat \<Rightarrow> real \<Rightarrow> real list \<Rightarrow> real list" where
  "relax i j w df = df[i := min (df ! i) (df ! j + w)]"

text \<open>The body of the forward loop at \<open>(x, y)\<close>: up, up-left, up-right, then left.\<close>

definition edge_forward_px :: "nat \<Rightarrow> nat \<Rightarrow> nat \<Rightarrow> real list \<Rightarrow> real list" where
  "edge_forward_px W y x df =
     (let i = y * W + x;
          df1 = (if y > 0 then
                   (let a = relax i ((y - 1) * W + x) 1 df;
                        b = (if x > 0 then relax i ((y - 1) * W + (x - 1)) (sqrt 2) a else a)
                    in if x + 1 < W then relax i ((y - 1) * W + (x + 1)) (sqrt 2) b else b)
                 else df)
      in if x > 0 then relax i (y * W + (x - 1)) 1 df1 else df1)"

text \<open>The body of the backward loop: down, down-left, down-right, then right.\<close>

definition edge_backward_px :: "nat \<Rightarrow> nat \<Rightarrow> nat \<Rightarrow> nat \<Rightarrow> real list \<Rightarrow> real list" where
  "edge_backward_px W H y x df =
     (let i = y * W + x;
          df1 = (if y + 1 < H then
                   (let a = relax i ((y + 1) * W + x) 1 df;
                        b = (if x > 0 then relax i ((y + 1) * W + (x - 1)) (sqrt 2) a else a)
                    in if x + 1 < W then relax i ((y + 1) * W + (x + 1)) (sqrt 2) b else b)
                 else df)
      in if x + 1 < W then relax i (y * W + (x + 1)) 1 df1 else df1)"

definition edge_forward :: "nat \<Rightarrow> nat \<Rightarrow> real list \<Rightarrow> real list" where
  "edge_forward W H df = fold (\<lambda>y. fold (edge_forward_px W y) [0..<W]) [0..<H] df"

definition edge_backward :: "nat \<Rightarrow> nat \<Rightarrow> real list \<Rightarrow> real list" where
  "edge_backward W H df =
     fold (\<lambda>y. fold (edge_backward_px W H y) (rev [0..<W])) (rev [0..<H]) df"

definition edge_distance :: "byte list \<Rightarrow> nat \<Rightarrow> nat \<Rightarrow> real list" where
  "edge_distance expanded W H =
     edge_backward W H (edge_forward W H (edge_df_init (edge_mask expanded (W * H))))"

text \<open>
  \<^verbatim>\<open>const inner = offsetPx, outer = offsetPx + edgePx;\<close>
  \<^verbatim>\<open>ringA[i] = mask[i] === 0 && d > inner && d <= outer ? 255 : 0;\<close>
\<close>

definition ring_alpha :: "byte list \<Rightarrow> real list \<Rightarrow> nat \<Rightarrow> nat \<Rightarrow> byte list" where
  "ring_alpha msk df offsetPx edgePx =
     (let inner = offsetPx; outer = offsetPx + edgePx
      in map (\<lambda>i. let d = df ! i
                   in if msk ! i = 0 \<and> d > real inner \<and> d \<le> real outer then 255 else 0)
           [0..<length msk])"

definition second_edge_ring :: "byte list \<Rightarrow> nat \<Rightarrow> nat \<Rightarrow> nat \<Rightarrow> nat \<Rightarrow> byte list" where
  "second_edge_ring expanded W H offsetPx edgePx =
     ring_alpha (edge_mask expanded (W * H)) (edge_distance expanded W H) offsetPx edgePx"

section \<open>cutout_border_only: border flood, feather, alpha\<close>

text \<open>
  \<^verbatim>\<open>tolerance = Math.max(0, Math.min(255, +tolerance || 220));\<close>
  \<^verbatim>\<open>feather = Math.max(0, Math.min(5, +feather || 2));\<close>
\<close>

definition cutout_tolerance :: "jsnum \<Rightarrow> jsnum" where
  "cutout_tolerance raw = js_max (Fin 0) (js_min (Fin 255) (js_or raw (Fin 220)))"

definition cutout_feather :: "jsnum \<Rightarrow> jsnum" where
  "cutout_feather raw = js_max (Fin 0) (js_min (Fin 5) (js_or raw (Fin 2)))"

text \<open>Step 2. \<^verbatim>\<open>const luminance = 0.299 * r + 0.587 * g + 0.114 * b;\<close>
  \<^verbatim>\<open>nearWhite[i] = (luminance >= tolerance) ? 1 : 0;\<close> (in exact arithmetic).\<close>

definition luminance :: "byte \<Rightarrow> byte \<Rightarrow> byte \<Rightarrow> real" where
  "luminance r g b = 0.299 * real (unat r) + 0.587 * real (unat g) + 0.114 * real (unat b)"

fun js_ge :: "real \<Rightarrow> jsnum \<Rightarrow> bool" where
  "js_ge v (Fin t) = (v \<ge> t)"
| "js_ge v NegInf = True"
| "js_ge v PosInf = False"
| "js_ge v NaN = False"

definition nearWhiteMask :: "jsnum \<Rightarrow> byte list \<Rightarrow> nat \<Rightarrow> bool list" where
  "nearWhiteMask tolerance data n =
     map (\<lambda>i. js_ge (luminance (data ! (4 * i)) (data ! (4 * i + 1)) (data ! (4 * i + 2)))
                 tolerance) [0..<n]"

text \<open>Step 3. The state of the flood fill is the mask \<open>bg\<close> and the worklist \<open>q\<close>.
  \<^verbatim>\<open>const pushIf = i => { if (i >= 0 && i < bg.length && nearWhite[i] && !bg[i])
    { bg[i] = 1; q.push(i); } };\<close>\<close>

definition pushIf :: "bool list \<Rightarrow> nat \<Rightarrow> bool list \<times> nat list \<Rightarrow> bool list \<times> nat list" where
  "pushIf nearWhite i s =
     (case s of (bg, q) \<Rightarrow>
        if i < length bg \<and> nearWhite ! i \<and> \<not> bg ! i then (bg[i := True], q @ [i])
        else (bg, q))"

text \<open>The two seeding loops: top and bottom row, then left and right column.\<close>

definition seedBorders ::
  "bool list \<Rightarrow> nat \<Rightarrow> nat \<Rightarrow> bool list \<times> nat list \<Rightarrow> bool list \<times> nat list" where
  "seedBorders nearWhite W H s =
     fold (\<lambda>y s. pushIf nearWhite (y * W + (W - 1)) (pushIf nearWhite (y * W) s)) [0..<H]
       (fold (\<lambda>x s. pushIf nearWhite ((H - 1) * W + x) (pushIf nearWhite x s)) [0..<W] s)"

text \<open>
  The worklist discipline. The source takes the last element (\<open>q.pop()\<close>, a stack);
  the specification also allows a queue (the first element).
\<close>

datatype discipline = Stack | Queue

fun take_next :: "discipline \<Rightarrow> nat list \<Rightarrow> nat \<times> nat list" where
  "take_next Stack q = (last q, butlast q)"
| "take_next Queue q = (hd q, tl q)"

text \<open>The body of the \<open>while\<close> loop after the element \<open>i\<close> has been taken:
  \<^verbatim>\<open>const y = (i / W) | 0, x = i - y*W;\<close>
  \<^verbatim>\<open>if (x > 0) pushIf(i-1); if (x < W-1) pushIf(i+1);\<close>
  \<^verbatim>\<open>if (y > 0) pushIf(i-W); if (y < H-1) pushIf(i+W);\<close>\<close>

definition visit ::
  "bool list \<Rightarrow> nat \<Rightarrow> nat \<Rightarrow> nat \<Rightarrow> bool list \<times> nat list \<Rightarrow> bool list \<times> nat list" where
  "visit nearWhite W H i s =
     (let y = i div W; x = i - y * W;
          s1 = (if x > 0 then pushIf nearWhite (i - 1) s else s);
          s2 = (if x < W - 1 then pushIf nearWhite (i + 1) s1 else s1);
          s3 = (if y > 0 then pushIf nearWhite (i - W) s2 else s2)
      in if y < H - 1 then pushIf nearWhite (i + W) s3 else s3)"

text \<open>The measure of the loop: twice the unmarked cells plus the length of the worklist.\<close>

definition todo :: "bool list \<times> nat list \<Rightarrow> nat" where
  "todo s = 2 * length (filter Not (fst s)) + length (snd s)"

lemma filter_Not_update:
  "i < length bg \<Longrightarrow> \<not> bg ! i \<Longrightarrow>
   Suc (length (filter Not (bg[i := True]))) = length (filter Not bg)"
proof (induction bg arbitrary: i)
  case Nil
  then show ?case by simp
next
  case (Cons b bg)
  then show ?case by (cases i) auto
qed

lemma todo_pushIf: "todo (pushIf nw i s) \<le> todo s"
proof (cases s)
  case (Pair bg q)
  show ?thesis
    using filter_Not_update [of i bg]
    by (auto simp: pushIf_def todo_def Pair)
qed

lemma todo_visit: "todo (visit nw W H i s) \<le> todo s"
  unfolding visit_def Let_def
  by (auto intro: order_trans [OF todo_pushIf])

function floodLoop ::
  "discipline \<Rightarrow> bool list \<Rightarrow> nat \<Rightarrow> nat \<Rightarrow> bool list \<times> nat list \<Rightarrow> bool list" where
  "floodLoop d nearWhite W H (bg, q) =
     (if q = [] then bg
      else (case take_next d q of
              (i, q') \<Rightarrow> floodLoop d nearWhite W H (visit nearWhite W H i (bg, q'))))"
  by pat_completeness auto
termination
proof (relation "measure (\<lambda>(d, nw, W, H, s). todo s)")
  show "wf (measure (\<lambda>(d, nw, W, H, s). todo s))" by simp
next
  fix d :: discipline and nearWhite W H bg and q :: "nat list" and i q'
  assume q: "q \<noteq> []" and x: "(i, q') = take_next d q"
  then have "length q' < length q"
    by (cases d) (auto simp: neq_Nil_conv)
  then have "todo (bg, q') < todo (bg, q)" by (simp add: todo_def)
  with todo_visit [of nearWhite W H i "(bg, q')"]
  show "((d, nearWhite, W, H, visit nearWhite W H i (bg, q')), (d, nearWhite, W, H, bg, q))
        \<in> measure (\<lambda>(d, nw, W, H, s). todo s)"
    by simp
qed

text \<open>\<^verbatim>\<open>const bg = new Uint8Array(W * H); const q = [];\<close>, the seeds, the loop.\<close>

definition borderFlood :: "discipline \<Rightarrow> bool list \<Rightarrow> nat \<Rightarrow> nat \<Rightarrow> bool list" where
  "borderFlood d nearWhite W H =
     floodLoop d nearWhite W H (seedBorders nearWhite W H (replicate (W * H) False, []))"

text \<open>
  Step 4. The offsets \<open>dy = -r; dy <= r; dy++\<close> of the scan around a pixel, for \<open>r > 0\<close>.
  A typed array read at an index that is not one of its integer indices is
  \<open>undefined\<close>, which \<open>!bg[..]\<close> takes for "not background".
\<close>

definition offsets :: "real \<Rightarrow> real list" where
  "offsets r = map (\<lambda>j. - r + real j) [0..<nat (\<lfloor>2 * r\<rfloor> + 1)]"

definition bgAt :: "bool list \<Rightarrow> real \<Rightarrow> bool" where
  "bgAt bg k = (k = real_of_int \<lfloor>k\<rfloor> \<and> 0 \<le> k \<and> nat \<lfloor>k\<rfloor> < length bg \<and> bg ! nat \<lfloor>k\<rfloor>)"

definition allBgAround :: "bool list \<Rightarrow> nat \<Rightarrow> nat \<Rightarrow> real \<Rightarrow> nat \<Rightarrow> nat \<Rightarrow> bool" where
  "allBgAround bg W H r y x =
     list_all (\<lambda>dy. let yy = real y + dy
                    in \<not> (yy < 0 \<or> yy \<ge> real H) \<and>
                       list_all (\<lambda>dx. let xx = real x + dx
                                      in \<not> (xx < 0 \<or> xx \<ge> real W \<or> \<not> bgAt bg (yy * real W + xx)))
                         (offsets r))
       (offsets r)"

text \<open>\<open>contracted[i] = 1\<close> iff \<open>bg[i]\<close> and all pixels within the radius are background;
  then \<open>bg\<close> is overwritten with \<open>contracted\<close>.\<close>

definition erode :: "real \<Rightarrow> bool list \<Rightarrow> nat \<Rightarrow> nat \<Rightarrow> bool list" where
  "erode r bg W H = raster W H (\<lambda>y x. bg ! (y * W + x) \<and> allBgAround bg W H r y x)"

text \<open>\<^verbatim>\<open>if (feather > 0) { ... }\<close>; the clamp always yields a finite number.\<close>

definition featherStep :: "jsnum \<Rightarrow> bool list \<Rightarrow> nat \<Rightarrow> nat \<Rightarrow> bool list" where
  "featherStep feather bg W H =
     (case feather of Fin r \<Rightarrow> if r > 0 then erode r bg W H else bg | _ \<Rightarrow> bg)"

text \<open>Step 5. \<^verbatim>\<open>const out = Buffer.from(data);\<close>
  \<^verbatim>\<open>if (bg[i]) { out[p+3] = 0; } else if (out[p+3] === 0) { out[p+3] = 255; }\<close>\<close>

definition applyAlpha :: "bool list \<Rightarrow> byte list \<Rightarrow> byte list" where
  "applyAlpha bg data =
     fold (\<lambda>i out. let p = 4 * i
                    in if bg ! i then out[p + 3 := 0]
                       else if out ! (p + 3) = 0 then out[p + 3 := 255] else out)
       [0..<length bg] data"

text \<open>Steps 2 to 4: the background mask; steps 2 to 5: the intermediate output. The
  input \<open>data\<close> is the decoded RGBA buffer (after the pre-blur of the image library).\<close>

definition cutoutBackground :: "jsnum \<Rightarrow> jsnum \<Rightarrow> byte list \<Rightarrow> nat \<Rightarrow> nat \<Rightarrow> bool list" where
  "cutoutBackground rawTolerance rawFeather data W H =
     (let tolerance = cutout_tolerance rawTolerance;
          feather = cutout_feather rawFeather;
          nearWhite = nearWhiteMask tolerance data (W * H);
          bg = borderFlood Stack nearWhite W H
      in featherStep feather bg W H)"

definition cutoutIntermediate :: "jsnum \<Rightarrow> jsnum \<Rightarrow> byte list \<Rightarrow> nat \<Rightarrow> nat \<Rightarrow> byte list" where
  "cutoutIntermediate rawTolerance rawFeather data W H =
     applyAlpha (cutoutBackground rawTolerance rawFeather data W H) data"

section \<open>cutout_border_only: the largest connected component\<close>

text \<open>Step 8. \<open>cleanedImage\<close> is the buffer after the blur of the image library and
  the threshold of step 7. \<^verbatim>\<open>opaque[i] = cleanedImage[p] > 128 ? 1 : 0\<close> with \<open>p = 4 * i + 3\<close>.\<close>

definition opaqueMask :: "byte list \<Rightarrow> nat \<Rightarrow> bool list" where
  "opaqueMask cleanedImage n = map (\<lambda>i. cleanedImage ! (4 * i + 3) > 128) [0..<n]"

text \<open>A component is a JavaScript \<open>Set\<close>, kept as the list of its elements in insertion
  order; \<open>component.add(v)\<close>:\<close>

definition set_add :: "nat \<Rightarrow> nat list \<Rightarrow> nat list" where
  "set_add v c = (if v \<in> set c then c else c @ [v])"

text \<open>The eight offsets \<open>(dy, dx)\<close> of the two nested loops, \<open>(0, 0)\<close> skipped.\<close>

definition offsets8 :: "(int \<times> int) list" where
  "offsets8 = concat (map (\<lambda>dy. concat (map (\<lambda>dx. if dx = 0 \<and> dy = 0 then [] else [(dy, dx)])
                 [-1, 0, 1])) [-1, 0, 1])"

text \<open>
  The body of the neighbour loops. \<open>visited\<close> is the set of cells whose flag is 1.
  \<^verbatim>\<open>if (ny < 0 || ny >= H || nx < 0 || nx >= W) continue;\<close>
  \<^verbatim>\<open>const ni = ny * W + nx; if (!opaque[ni] || visited[ni]) continue;\<close>
  \<^verbatim>\<open>visited[ni] = 1; queue.push(ni);\<close>
\<close>

definition tryNeighbour ::
  "nat \<Rightarrow> nat \<Rightarrow> bool list \<Rightarrow> nat \<Rightarrow> nat \<Rightarrow> int \<times> int \<Rightarrow> nat set \<times> nat list \<Rightarrow> nat set \<times> nat list" where
  "tryNeighbour W H opaque cy cx d s =
     (case d of (dy, dx) \<Rightarrow> case s of (visited, queue) \<Rightarrow>
        let ny = int cy + dy; nx = int cx + dx
        in if ny < 0 \<or> ny \<ge> int H \<or> nx < 0 \<or> nx \<ge> int W then (visited, queue)
           else (let ni = nat (ny * int W + nx)
                 in if \<not> opaque ! ni \<or> ni \<in> visited then (visited, queue)
                    else (insert ni visited, queue @ [ni])))"

text \<open>The measure of the flood loop: twice the unvisited cells plus the queue length.\<close>

definition unvisited :: "nat \<Rightarrow> nat \<Rightarrow> nat set \<times> nat list \<Rightarrow> nat" where
  "unvisited W H s = 2 * card ({0..<W * H} - fst s) + length (snd s)"

lemma unvisited_tryNeighbour: "unvisited W H (tryNeighbour W H opaque cy cx d s) \<le> unvisited W H s"
proof (cases d, cases s)
  fix dy dx visited queue
  assume d: "d = (dy, dx)" and s: "s = (visited, queue)"
  show ?thesis
  proof (cases "0 \<le> int cy + dy \<and> int cy + dy < int H \<and> 0 \<le> int cx + dx \<and> int cx + dx < int W
      \<and> nat ((int cy + dy) * int W + (int cx + dx)) \<notin> visited")
    case False
    then show ?thesis by (auto simp: tryNeighbour_def d s Let_def)
  next
    case True
    define ny where "ny = nat (int cy + dy)"
    define nx where "nx = nat (int cx + dx)"
    have ny: "int cy + dy = int ny" "ny < H" and nx: "int cx + dx = int nx" "nx < W"
      using True by (auto simp: ny_def nx_def)
    have ni: "nat ((int cy + dy) * int W + (int cx + dx)) = ny * W + nx"
      unfolding ny nx by (simp add: nat_add_distrib nat_mult_distrib)
    let ?ni = "ny * W + nx"
    have lt: "?ni < W * H" using row_major_lt [OF ny(2) nx(2)] .
    have nv: "?ni \<notin> visited" using True ni by simp
    have "?ni \<in> {0..<W * H} - visited" using lt nv by simp
    then have "card ({0..<W * H} - insert ?ni visited) < card ({0..<W * H} - visited)"
      by (metis Diff_insert card_Diff1_less finite_Diff finite_atLeastLessThan)
    then show ?thesis
      by (auto simp: tryNeighbour_def d s Let_def ni unvisited_def)
  qed
qed

lemma unvisited_fold:
  "unvisited W H (fold (tryNeighbour W H opaque cy cx) ds s) \<le> unvisited W H s"
proof (induction ds arbitrary: s)
  case Nil
  then show ?case by simp
next
  case (Cons d ds)
  show ?case
    using Cons.IH [of "tryNeighbour W H opaque cy cx d s"]
      unvisited_tryNeighbour [of W H opaque cy cx d s] by simp
qed

text \<open>
  The flood of one component: \<^verbatim>\<open>const curr = queue.shift(); component.add(curr);\<close>
  \<^verbatim>\<open>const cy = Math.floor(curr / W); const cx = curr % W;\<close> and the neighbour loops.
\<close>

function bfs :: "nat \<Rightarrow> nat \<Rightarrow> bool list \<Rightarrow> nat set \<times> nat list \<times> nat list \<Rightarrow> nat set \<times> nat list" where
  "bfs W H opaque (visited, queue, component) =
     (case queue of
        [] \<Rightarrow> (visited, component)
      | cur # rest \<Rightarrow>
          (let component' = set_add cur component;
               cy = cur div W;
               cx = cur mod W
           in case fold (tryNeighbour W H opaque cy cx) offsets8 (visited, rest) of
                (visited', queue') \<Rightarrow> bfs W H opaque (visited', queue', component')))"
  by pat_completeness auto
termination
proof (relation "measure (\<lambda>(W, H, opaque, visited, queue, component). unvisited W H (visited, queue))")
  show "wf (measure (\<lambda>(W, H, opaque, visited, queue, component). unvisited W H (visited, queue)))"
    by simp
next
  fix W H opaque visited and queue :: "nat list" and component cur rest component' cy cx visited' queue'
  assume q: "queue = cur # rest" and "component' = set_add cur component"
    and cy: "cy = cur div W" and cx: "cx = cur mod W"
    and v: "(visited', queue') = fold (tryNeighbour W H opaque cy cx) offsets8 (visited, rest)"
  have "unvisited W H (visited', queue') \<le> unvisited W H (visited, rest)"
    using unvisited_fold [of W H opaque cy cx offsets8 "(visited, rest)"] v by simp
  also have "\<dots> < unvisited W H (visited, queue)" by (simp add: unvisited_def q)
  finally show "((W, H, opaque, visited', queue', component'), (W, H, opaque, visited, queue, component))
     \<in> measure (\<lambda>(W, H, opaque, visited, queue, component). unvisited W H (visited, queue))"
    by simp
qed

text \<open>
  The body of the scan at the cell \<open>i = y * W + x\<close>:
  \<^verbatim>\<open>if (!opaque[i] || visited[i]) continue;\<close>
  \<^verbatim>\<open>const component = new Set(); const queue = [i]; visited[i] = 1;\<close> the flood, and
  \<^verbatim>\<open>if (component.size > 10) { components.push(component); }\<close>
\<close>

definition scanStep :: "nat \<Rightarrow> nat \<Rightarrow> bool list \<Rightarrow> nat \<Rightarrow> nat set \<times> nat list list \<Rightarrow> nat set \<times> nat list list" where
  "scanStep W H opaque i s =
     (case s of (visited, components) \<Rightarrow>
        if \<not> opaque ! i \<or> i \<in> visited then (visited, components)
        else (case bfs W H opaque (insert i visited, [i], []) of
                (visited', component) \<Rightarrow>
                  (visited', if length component > 10 then components @ [component]
                             else components)))"

definition findComponents :: "nat \<Rightarrow> nat \<Rightarrow> bool list \<Rightarrow> nat list list" where
  "findComponents W H opaque =
     snd (fold (\<lambda>y. fold (\<lambda>x. scanStep W H opaque (y * W + x)) [0..<W]) [0..<H] ({}, []))"

text \<open>
  \<^verbatim>\<open>let largestComponent = null; let maxSize = 0;\<close>
  \<^verbatim>\<open>if (component.size > maxSize) { maxSize = component.size; largestComponent = component; }\<close>
\<close>

definition pickLargest :: "nat list list \<Rightarrow> nat list option \<times> nat" where
  "pickLargest components =
     fold (\<lambda>component (largestComponent, maxSize).
             if length component > maxSize then (Some component, length component)
             else (largestComponent, maxSize))
       components (None, 0)"

text \<open>Step 9. \<^verbatim>\<open>if (final[p] > 50) { if (!largestComponent.has(i)) { final[p] = 0; } }\<close>
  when \<open>largestComponent\<close> is not \<open>null\<close>.\<close>

definition keepLargest :: "nat list option \<Rightarrow> byte list \<Rightarrow> nat \<Rightarrow> byte list" where
  "keepLargest largestComponent cleanedImage n =
     (case largestComponent of
        None \<Rightarrow> cleanedImage
      | Some c \<Rightarrow>
          fold (\<lambda>i final. let p = 4 * i + 3
                          in if final ! p > 50 \<and> i \<notin> set c then final[p := 0] else final)
            [0..<n] cleanedImage)"

definition selectLargest :: "byte list \<Rightarrow> nat \<Rightarrow> nat \<Rightarrow> byte list" where
  "selectLargest cleanedImage W H =
     (let opaque = opaqueMask cleanedImage (W * H);
          components = findComponents W H opaque;
          largestComponent = fst (pickLargest components)
      in keepLargest largestComponent cleanedImage (W * H))"

section \<open>make_sticker_border: createRasterSmoothBorder\<close>

text \<open>
  The chamfer passes of \<open>createRasterSmoothBorder\<close> (the same in both copies of the
  script). The loops run over the interior \<open>1 \<le> y < newH - 1\<close>, \<open>1 \<le> x < newW - 1\<close>:
  \<^verbatim>\<open>distanceField[idx] = Math.min(current, ...neighbors);\<close>
\<close>

definition raster_forward_px :: "nat \<Rightarrow> nat \<Rightarrow> nat \<Rightarrow> real list \<Rightarrow> real list" where
  "raster_forward_px W y x df =
     (let idx = y * W + x;
          current = df ! idx;
          neighbors = [df ! ((y - 1) * W + (x - 1)) + sqrt 2,
                       df ! ((y - 1) * W + x) + 1,
                       df ! ((y - 1) * W + (x + 1)) + sqrt 2,
                       df ! (y * W + (x - 1)) + 1]
      in df[idx := foldl min current neighbors])"

definition raster_backward_px :: "nat \<Rightarrow> nat \<Rightarrow> nat \<Rightarrow> real list \<Rightarrow> real list" where
  "raster_backward_px W y x df =
     (let idx = y * W + x;
          current = df ! idx;
          neighbors = [df ! (y * W + (x + 1)) + 1,
                       df ! ((y + 1) * W + (x - 1)) + sqrt 2,
                       df ! ((y + 1) * W + x) + 1,
                       df ! ((y + 1) * W + (x + 1)) + sqrt 2]
      in df[idx := foldl min current neighbors])"

definition raster_forward :: "nat \<Rightarrow> nat \<Rightarrow> real list \<Rightarrow> real list" where
  "raster_forward W H df = fold (\<lambda>y. fold (raster_forward_px W y) [1..<W - 1]) [1..<H - 1] df"

definition raster_backward :: "nat \<Rightarrow> nat \<Rightarrow> real list \<Rightarrow> real list" where
  "raster_backward W H df =
     fold (\<lambda>y. fold (raster_backward_px W y) (rev [1..<W - 1])) (rev [1..<H - 1]) df"

text \<open>
  The distance field of the second copy (smooth falloff): filled with \<open>strokePx * 2\<close>,
  then 0 where \<open>expandedData[pixelIdx + 3] > 0\<close>, then the two passes.
\<close>

definition smooth_distanceField :: "byte list \<Rightarrow> nat \<Rightarrow> nat \<Rightarrow> real \<Rightarrow> real list" where
  "smooth_distanceField expandedData W H strokePx =
     raster_backward W H (raster_forward W H
       (raster W H (\<lambda>y x. if expandedData ! ((y * W + x) * 4 + 3) > 0 then 0
                           else strokePx * 2)))"

text \<open>
  The distance field of the first copy (hard ring): the seeds are the pixels of the
  binary mask \<^verbatim>\<open>binaryMask[idx] = expandedData[pixelIdx + 3] > 127 ? 1 : 0\<close>.
\<close>

definition hard_distanceField :: "byte list \<Rightarrow> nat \<Rightarrow> nat \<Rightarrow> real \<Rightarrow> real list" where
  "hard_distanceField expandedData W H strokePx =
     (let binaryMask = raster W H (\<lambda>y x. if expandedData ! ((y * W + x) * 4 + 3) > 127
                                           then (1::byte) else 0);
          processedMask = binaryMask
      in raster_backward W H (raster_forward W H
           (raster W H (\<lambda>y x. if processedMask ! (y * W + x) = 1 then 0 else strokePx * 2))))"

text \<open>
  Step 5 of the first copy. \<open>borderData\<close> is zero-filled; a pixel is a list of its
  four channels, and the buffer is the pixels in row-major order.
  \<^verbatim>\<open>if (expandedData[idx + 3] > 0) { copy the four channels }\<close>
  \<^verbatim>\<open>else if (distance <= strokePx) { 255, 255, 255, 255 }\<close>
\<close>

definition createRasterSmoothBorder_hard ::
  "byte list \<Rightarrow> nat \<Rightarrow> nat \<Rightarrow> real \<Rightarrow> byte list" where
  "createRasterSmoothBorder_hard expandedData W H strokePx =
     (let distanceField = hard_distanceField expandedData W H strokePx
      in concat (raster W H (\<lambda>y x.
           let idx = (y * W + x) * 4;
               distance = distanceField ! (y * W + x)
           in if expandedData ! (idx + 3) > 0
              then [expandedData ! idx, expandedData ! (idx + 1),
                    expandedData ! (idx + 2), expandedData ! (idx + 3)]
              else if distance \<le> strokePx then [255, 255, 255, 255]
              else [0, 0, 0, 0])))"

text \<open>
  Step 3 of the second copy.
  \<^verbatim>\<open>const borderStrength = Math.max(0, 1 - (distance / strokePx));\<close>
  \<^verbatim>\<open>const smoothStrength = Math.pow(borderStrength, 1 / softness);\<close>
  \<^verbatim>\<open>const alpha = Math.round(255 * smoothStrength);\<close>
  \<^verbatim>\<open>if (alpha > 0) { 255, 255, 255, alpha }\<close>
  The power is \<open>powr\<close>, which agrees with \<open>Math.pow\<close> on a base \<open>\<ge> 0\<close> and an
  exponent \<open>> 0\<close> (the softness is clamped to [0.1, 5.0] by the caller).
\<close>

definition createRasterSmoothBorder_smooth ::
  "byte list \<Rightarrow> nat \<Rightarrow> nat \<Rightarrow> real \<Rightarrow> real \<Rightarrow> byte list" where
  "createRasterSmoothBorder_smooth expandedData W H strokePx softness =
     (let distanceField = smooth_distanceField expandedData W H strokePx
      in concat (raster W H (\<lambda>y x.
           let idx = (y * W + x) * 4;
               distance = distanceField ! (y * W + x)
           in if expandedData ! (idx + 3) > 0
              then [expandedData ! idx, expandedData ! (idx + 1),
                    expandedData ! (idx + 2), expandedData ! (idx + 3)]
              else if distance \<le> strokePx
              then (let borderStrength = max 0 (1 - distance / strokePx);
                        smoothStrength = borderStrength powr (1 / softness);
                        alpha = js_round (255 * smoothStrength)
                    in if alpha > 0 then [255, 255, 255, to_byte alpha] else [0, 0, 0, 0])
              else [0, 0, 0, 0])))"

section \<open>add_bevel: rim, gradient and the two shading layers\<close>

text \<open>\<open>erode3x3\<close>: the interior cell is 1 iff its nine neighbours are set; the border
  cells are 0.\<close>

definition erode3x3 :: "byte list \<Rightarrow> nat \<Rightarrow> nat \<Rightarrow> byte list" where
  "erode3x3 msk w h =
     raster w h (\<lambda>y x.
       if 1 \<le> y \<and> y < h - 1 \<and> 1 \<le> x \<and> x < w - 1
       then (if list_all (\<lambda>yy. list_all (\<lambda>xx. msk ! (yy * w + xx) \<noteq> 0) [x - 1, x, x + 1])
                  [y - 1, y, y + 1]
             then 1 else 0)
       else 0)"

text \<open>\<^verbatim>\<open>alphaMask[i] = rgba[p+3] > 0 ? 1 : 0\<close>; \<open>eroded\<close> is \<open>erode3x3\<close> applied \<open>r\<close> times;
  \<^verbatim>\<open>rimMask[i] = alphaMask[i] && !eroded[i] ? 1 : 0\<close>.\<close>

definition alphaMask :: "byte list \<Rightarrow> nat \<Rightarrow> byte list" where
  "alphaMask rgba n = map (\<lambda>i. if rgba ! (4 * i + 3) > 0 then 1 else 0) [0..<n]"

definition rimMask :: "byte list \<Rightarrow> nat \<Rightarrow> nat \<Rightarrow> nat \<Rightarrow> byte list" where
  "rimMask rgba W H r =
     (let am = alphaMask rgba (W * H);
          eroded = ((\<lambda>m. erode3x3 m W H) ^^ r) am
      in map (\<lambda>i. if am ! i \<noteq> 0 \<and> \<not> eroded ! i \<noteq> 0 then 1 else 0) [0..<W * H])"

text \<open>\<open>sobel\<close>: the 3x3 window around an interior cell, row by row, against the
  kernels \<open>Kx\<close> and \<open>Ky\<close>; the border cells are 0.\<close>

definition Kx :: "real list" where
  "Kx = [-1, 0, 1, -2, 0, 2, -1, 0, 1]"

definition Ky :: "real list" where
  "Ky = [-1, -2, -1, 0, 0, 0, 1, 2, 1]"

definition window :: "real list \<Rightarrow> nat \<Rightarrow> nat \<Rightarrow> nat \<Rightarrow> real list" where
  "window height w y x =
     concat (map (\<lambda>yy. map (\<lambda>xx. height ! (yy * w + xx)) [x - 1, x, x + 1]) [y - 1, y, y + 1])"

definition sobel :: "real list \<Rightarrow> nat \<Rightarrow> nat \<Rightarrow> real list \<times> real list" where
  "sobel height w h =
     (raster w h (\<lambda>y x. if 1 \<le> y \<and> y < h - 1 \<and> 1 \<le> x \<and> x < w - 1
                         then sum_list (map2 (*) (window height w y x) Kx) else 0),
      raster w h (\<lambda>y x. if 1 \<le> y \<and> y < h - 1 \<and> 1 \<le> x \<and> x < w - 1
                         then sum_list (map2 (*) (window height w y x) Ky) else 0))"

text \<open>
  The normalised gradient against the light vector:
  \<^verbatim>\<open>const len = Math.hypot(nx, ny) || 1e-6; nx/=len; ny/=len;\<close>
  \<^verbatim>\<open>const ndotl = nx*lx + ny*ly;\<close> with \<open>lx = cos rad\<close>, \<open>ly = sin rad\<close>,
  \<open>rad = lightDir * PI / 180\<close>.
\<close>

definition ndotl :: "real \<Rightarrow> real \<Rightarrow> real \<Rightarrow> real" where
  "ndotl lightDir gxi gyi =
     (let rad = lightDir * pi / 180; lx = cos rad; ly = sin rad;
          hyp = sqrt (gxi\<^sup>2 + gyi\<^sup>2);
          len = (if hyp = 0 then 1 / 10 ^ 6 else hyp);
          nx = gxi / len; ny = gyi / len
      in nx * lx + ny * ly)"

text \<open>\<^verbatim>\<open>Math.round(255 * intensity * Math.abs(ndotl))\<close> stored into a byte; a \<open>NaN\<close>
  is stored as 0.\<close>

definition shadeAlpha :: "jsnum \<Rightarrow> real \<Rightarrow> byte" where
  "shadeAlpha intensity d =
     (case intensity of Fin v \<Rightarrow> to_byte (js_round (255 * v * \<bar>d\<bar>)) | _ \<Rightarrow> 0)"

text \<open>
  The shadow pixel and the highlight pixel written for the cell \<open>i\<close>; both buffers are
  zero-filled, and a cell outside the rim is skipped. With a light direction that is not
  a finite number \<open>ndotl\<close> is \<open>NaN\<close>: the test \<open>ndotl < 0\<close> fails and the alpha is 0.
\<close>

definition shadePixel :: "byte list \<Rightarrow> real list \<Rightarrow> real list \<Rightarrow> jsnum \<Rightarrow> jsnum \<Rightarrow> nat
    \<Rightarrow> byte list \<times> byte list" where
  "shadePixel rim gx gy lightDir intensity i =
     (if \<not> rim ! i \<noteq> 0 then ([0, 0, 0, 0], [0, 0, 0, 0])
      else (case lightDir of
              Fin deg \<Rightarrow>
                (let d = ndotl deg (gx ! i) (gy ! i)
                 in if d < 0 then ([0, 0, 0, shadeAlpha intensity d], [0, 0, 0, 0])
                    else ([0, 0, 0, 0], [255, 255, 255, shadeAlpha intensity d]))
            | _ \<Rightarrow> ([0, 0, 0, 0], [255, 255, 255, 0])))"

definition bevelLayers :: "byte list \<Rightarrow> real list \<Rightarrow> real list \<Rightarrow> jsnum \<Rightarrow> jsnum \<Rightarrow> nat \<Rightarrow> nat
    \<Rightarrow> byte list \<times> byte list" where
  "bevelLayers rim gx gy lightDir intensity W H =
     (concat (raster W H (\<lambda>y x. fst (shadePixel rim gx gy lightDir intensity (y * W + x)))),
      concat (raster W H (\<lambda>y x. snd (shadePixel rim gx gy lightDir intensity (y * W + x)))))"

text \<open>
  The shading of \<open>main\<close>: \<open>rgba\<close> is the decoded image, \<open>alphaBlur\<close> the blurred alpha
  channel returned by the image library, \<open>r\<close> the rim radius
  \<^verbatim>\<open>clamp(Math.round(bevelPx), 1, 50)\<close>; \<^verbatim>\<open>height[i] = alphaBlur[i]/255\<close>.
\<close>

definition bevelShade :: "byte list \<Rightarrow> byte list \<Rightarrow> nat \<Rightarrow> nat \<Rightarrow> nat \<Rightarrow> jsnum \<Rightarrow> jsnum
    \<Rightarrow> byte list \<times> byte list" where
  "bevelShade rgba alphaBlur W H r lightDir intensity =
     (let rim = rimMask rgba W H r;
          height = map (\<lambda>b. real (unat b) / 255) alphaBlur;
          g = sobel height W H
      in bevelLayers rim (fst g) (snd g) lightDir intensity W H)"

section \<open>Reading the buffers\<close>

text \<open>The alpha that step 5 of the cutout leaves at a pixel with background flag \<open>b\<close>
  and source alpha \<open>a\<close>.\<close>

definition alphaRule :: "bool \<Rightarrow> byte \<Rightarrow> byte" where
  "alphaRule b a = (if b then 0 else if a = 0 then 255 else a)"

text \<open>The four channels of the pixel \<open>i\<close> of an RGBA buffer.\<close>

definition pixelAt :: "byte list \<Rightarrow> nat \<Rightarrow> byte list" where
  "pixelAt buf i = [buf ! (i * 4), buf ! (i * 4 + 1), buf ! (i * 4 + 2), buf ! (i * 4 + 3)]"

section \<open>Border-connected cells\<close>

text \<open>The set of cells a mask marks.\<close>

definition marked :: "bool list \<Rightarrow> nat set" where
  "marked bg = {i. i < length bg \<and> bg ! i}"

text \<open>The cells that the loop body offers to \<open>pushIf\<close> for the cell \<open>i\<close>, in its order.\<close>

definition neighbours :: "nat \<Rightarrow> nat \<Rightarrow> nat \<Rightarrow> nat list" where
  "neighbours W H i =
     (let y = i div W; x = i - y * W
      in (if x > 0 then [i - 1] else []) @ (if x < W - 1 then [i + 1] else []) @
         (if y > 0 then [i - W] else []) @ (if y < H - 1 then [i + W] else []))"

text \<open>The cells that the two seeding loops offer to \<open>pushIf\<close>, in their order.\<close>

definition borderSeeds :: "nat \<Rightarrow> nat \<Rightarrow> nat list" where
  "borderSeeds W H =
     concat (map (\<lambda>x. [x, (H - 1) * W + x]) [0..<W]) @
     concat (map (\<lambda>y. [y * W, y * W + (W - 1)]) [0..<H])"

text \<open>Border-connected: reachable from a near-white seed through near-white
  4-neighbours.\<close>

inductive_set reach :: "bool list \<Rightarrow> nat \<Rightarrow> nat \<Rightarrow> nat set" for nw W H where
  seed: "i \<in> set (borderSeeds W H) \<Longrightarrow> i < W * H \<Longrightarrow> nw ! i \<Longrightarrow> i \<in> reach nw W H"
| step: "i \<in> reach nw W H \<Longrightarrow> j \<in> set (neighbours W H i) \<Longrightarrow> j < W * H \<Longrightarrow> nw ! j
         \<Longrightarrow> j \<in> reach nw W H"

text \<open>The candidates of a run of \<open>pushIf\<close> that qualify.\<close>

definition fresh :: "bool list \<Rightarrow> nat \<Rightarrow> nat list \<Rightarrow> nat set" where
  "fresh nw n js = {j \<in> set js. j < n \<and> nw ! j}"

text \<open>The invariant of the flood loop: marked cells are border-connected, the worklist
  holds marked cells, and a marked cell outside the worklist has all its qualifying
  neighbours marked.\<close>

definition flood_inv :: "bool list \<Rightarrow> nat \<Rightarrow> nat \<Rightarrow> bool list \<times> nat list \<Rightarrow> bool" where
  "flood_inv nw W H s =
     (length (fst s) = W * H \<and> marked (fst s) \<subseteq> reach nw W H \<and> set (snd s) \<subseteq> marked (fst s)
      \<and> (\<forall>i \<in> marked (fst s) - set (snd s). fresh nw (W * H) (neighbours W H i) \<subseteq> marked (fst s))
      \<and> fresh nw (W * H) (borderSeeds W H) \<subseteq> marked (fst s))"


section \<open>Invariants of the component search\<close>

text \<open>What the neighbour loops do to the visited set and the queue: the new queue
  elements are newly visited, in range and opaque.\<close>

definition grow :: "nat \<Rightarrow> nat \<Rightarrow> bool list \<Rightarrow> nat set \<times> nat list \<Rightarrow> nat set \<times> nat list \<Rightarrow> bool" where
  "grow W H opaque s s' =
     (\<exists>new. snd s' = snd s @ new \<and> fst s' = fst s \<union> set new \<and> set new \<inter> fst s = {}
        \<and> (\<forall>i \<in> set new. i < W * H \<and> opaque ! i))"

text \<open>The invariant of the scan before the cell \<open>n\<close>: the retained components are
  non-empty sets of visited opaque cells, each met before \<open>n\<close>, pairwise disjoint, and
  listed in the order of the cells where the scan met them.\<close>

definition scan_inv :: "nat \<Rightarrow> nat \<Rightarrow> bool list \<Rightarrow> nat \<Rightarrow> nat set \<times> nat list list \<Rightarrow> bool" where
  "scan_inv W H opaque n s =
     ((\<forall>c \<in> set (snd s). c \<noteq> [] \<and> hd c < n \<and> set c \<subseteq> fst s \<and> 10 < length c
          \<and> (\<forall>i \<in> set c. i < W * H \<and> opaque ! i))
      \<and> (\<forall>j k. j < k \<and> k < length (snd s) \<longrightarrow>
            set (snd s ! j) \<inter> set (snd s ! k) = {} \<and> hd (snd s ! j) < hd (snd s ! k)))"

section \<open>Chamfer passes as relaxation passes; the distance to a single seed\<close>

text \<open>One cell update of either source: the cell takes the minimum of its own value and
  of each listed neighbour plus its weight. \<open>relax\<close> chains are the one-neighbour case.\<close>

definition relaxed :: "real list \<Rightarrow> nat \<Rightarrow> (nat \<times> real) list \<Rightarrow> real list" where
  "relaxed df i nbrs = df[i := foldl min (df ! i) (map (\<lambda>(j, w). df ! j + w) nbrs)]"

text \<open>A pass relaxes the cells in a given order; \<open>nb i\<close> lists the neighbours read for
  the cell \<open>i\<close> with their weights (empty for a cell the pass skips).\<close>

definition pass :: "(nat \<Rightarrow> (nat \<times> real) list) \<Rightarrow> nat list \<Rightarrow> real list \<Rightarrow> real list" where
  "pass nb order df = fold (\<lambda>i df. relaxed df i (nb i)) order df"

text \<open>The norm whose unit ball is the octagon of the two step weights \<open>1\<close> and
  \<open>sqrt 2\<close>, and the distance of the cell \<open>i\<close> to the seed \<open>(sx, sy)\<close> in it.\<close>

definition cN :: "real \<Rightarrow> real \<Rightarrow> real" where
  "cN u v = max (\<bar>u\<bar> + (sqrt 2 - 1) * \<bar>v\<bar>) (\<bar>v\<bar> + (sqrt 2 - 1) * \<bar>u\<bar>)"














section \<open>Parameter clamps: properties\<close>

lemma sticker_strokePx_in_range: "in_range 1 500 (sticker_strokePx raw)"
  by (cases raw) (auto simp: sticker_strokePx_def)

lemma sticker_softness_in_range: "in_range 0.1 5.0 (sticker_softness raw)"
  by (cases raw) (auto simp: sticker_softness_def)

lemma bevel_bevelPx_in_range: "in_range 1 50 (bevel_bevelPx parsed)"
  by (cases parsed) (auto simp: bevel_bevelPx_def clamp_def)

lemma bevel_intensity_in_range_iff:
  "in_range 0 1 (bevel_intensity parsed) \<longleftrightarrow> parsed \<noteq> NaN"
  by (cases parsed) (auto simp: bevel_intensity_def clamp_def)

text \<open>
  C8. The effective stroke thickness lies in [1,500] and the softness in [0.1,5.0] for
  every raw argument, but the relief intensity does not lie in [0,1] for every raw
  argument: a non-numeric intensity parses to \<open>NaN\<close>, and \<open>clamp\<close> returns \<open>NaN\<close>.
\<close>

theorem bevel_intensity_NaN:
  "bevel_intensity NaN = NaN \<and> \<not> in_range 0 1 (bevel_intensity NaN)
   \<and> in_range 1 500 (sticker_strokePx NaN) \<and> in_range 0.1 5.0 (sticker_softness NaN)
   \<and> in_range 1 50 (bevel_bevelPx NaN)"
  by (simp add: bevel_intensity_def clamp_def sticker_strokePx_def sticker_softness_def
      bevel_bevelPx_def)

section \<open>Raster buffers: properties\<close>

lemma concat_nth_fixed:
  "(\<And>l. l \<in> set ls \<Longrightarrow> length l = k) \<Longrightarrow> i < length ls \<Longrightarrow> c < k \<Longrightarrow>
   concat ls ! (i * k + c) = ls ! i ! c"
proof (induction ls arbitrary: i)
  case Nil
  then show ?case by simp
next
  case (Cons l ls)
  show ?case
  proof (cases i)
    case 0
    with Cons.prems show ?thesis by (simp add: nth_append)
  next
    case (Suc j)
    have "concat ls ! (j * k + c) = ls ! j ! c"
      using Cons.prems Suc by (intro Cons.IH) auto
    with Cons.prems Suc show ?thesis by (simp add: nth_append)
  qed
qed

lemma concat_length_fixed:
  "(\<And>l. l \<in> set ls \<Longrightarrow> length l = k) \<Longrightarrow> length (concat ls) = length ls * k"
  by (induction ls) auto

lemma raster_length: "length (raster W H f) = H * W"
  unfolding raster_def by (subst concat_length_fixed [where k = W]) auto

lemma raster_nth: "y < H \<Longrightarrow> x < W \<Longrightarrow> raster W H f ! (y * W + x) = f y x"
  unfolding raster_def by (subst concat_nth_fixed [where k = W]) auto


lemma raster_cells_length:
  "(\<And>y x. length (f y x) = k) \<Longrightarrow> l \<in> set (raster W H f) \<Longrightarrow> length l = k"
  unfolding raster_def by auto

lemma concat_raster_length:
  assumes "\<And>y x. length (f y x) = k"
  shows "length (concat (raster W H f)) = H * W * k"
proof -
  have "length (concat (raster W H f)) = length (raster W H f) * k"
    by (rule concat_length_fixed) (rule raster_cells_length [OF assms])
  then show ?thesis by (simp add: raster_length)
qed

lemma concat_raster_nth:
  assumes "\<And>y x. length (f y x) = k" and "y < H" and "x < W" and "c < k"
  shows "concat (raster W H f) ! ((y * W + x) * k + c) = f y x ! c"
proof -
  have "y * W + x < y * W + W" using assms by simp
  also have "\<dots> = Suc y * W" by simp
  also have "\<dots> \<le> H * W" using assms by (intro mult_le_mono1) simp
  finally have lt: "y * W + x < length (raster W H f)" by (simp add: raster_length)
  have "concat (raster W H f) ! ((y * W + x) * k + c) = raster W H f ! (y * W + x) ! c"
    by (rule concat_nth_fixed [OF raster_cells_length [OF assms(1)] lt assms(4)])
  then show ?thesis using assms by (simp add: raster_nth)
qed

section \<open>The cutout: lengths and the alpha rule\<close>

lemma length_pushIf [simp]: "length (fst (pushIf nw i s)) = length (fst s)"
  by (cases s) (simp add: pushIf_def)

lemma length_visit [simp]: "length (fst (visit nw W H i s)) = length (fst s)"
  by (simp add: visit_def Let_def)

lemma length_floodLoop [simp]: "length (floodLoop d nw W H s) = length (fst s)"
proof (induction d nw W H s rule: floodLoop.induct)
  case (1 d nw W H bg q)
  show ?case
  proof (cases "q = []")
    case True
    then show ?thesis by simp
  next
    case False
    obtain i q' where t: "take_next d q = (i, q')" by (cases "take_next d q")
    have "length (floodLoop d nw W H (visit nw W H i (bg, q'))) =
          length (fst (visit nw W H i (bg, q')))"
      using False t by (intro "1.IH") auto
    with False t show ?thesis by simp
  qed
qed

lemma length_seedBorders [simp]: "length (fst (seedBorders nw W H s)) = length (fst s)"
proof -
  have a: "length (fst (fold (\<lambda>x s. pushIf nw (g x) (pushIf nw (h x) s)) xs s)) = length (fst s)"
    for g h :: "nat \<Rightarrow> nat" and xs s
    by (induction xs arbitrary: s) auto
  show ?thesis by (simp add: seedBorders_def a)
qed

lemma length_borderFlood [simp]: "length (borderFlood d nw W H) = W * H"
  by (simp add: borderFlood_def)

lemma length_featherStep [simp]:
  "length bg = W * H \<Longrightarrow> length (featherStep f bg W H) = W * H"
  by (auto simp: featherStep_def erode_def raster_length mult.commute split: jsnum.splits)

lemma length_cutoutBackground [simp]: "length (cutoutBackground t f data W H) = W * H"
  by (simp add: cutoutBackground_def Let_def)

lemma alpha_index: "k mod 4 = 3 \<and> k div 4 < Suc n \<longleftrightarrow> k = 4 * n + 3 \<or> (k mod 4 = 3 \<and> k div 4 < n)"
  for k n :: nat
  by presburger

lemma applyAlpha_take:
  fixes bg :: "bool list"
  assumes "4 * n \<le> length data"
  defines "f \<equiv> (\<lambda>i out. let p = 4 * i
                    in if bg ! i then out[p + 3 := 0]
                       else if out ! (p + 3) = (0::byte) then out[p + 3 := 255] else out)"
  shows "length (fold f [0..<n] data) = length data \<and>
     (\<forall>k < length data. fold f [0..<n] data ! k =
         (if k mod 4 = 3 \<and> k div 4 < n then alphaRule (bg ! (k div 4)) (data ! k)
          else data ! k))"
  using assms(1)
proof (induction n)
  case 0
  then show ?case by simp
next
  case (Suc n)
  define out where "out = fold f [0..<n] data"
  have len: "length out = length data"
    and nth: "\<And>k. k < length data \<Longrightarrow> out ! k =
         (if k mod 4 = 3 \<and> k div 4 < n then alphaRule (bg ! (k div 4)) (data ! k)
          else data ! k)"
    using Suc by (auto simp: out_def)
  have lt: "4 * n + 3 < length data" using Suc.prems by simp
  have old: "out ! (4 * n + 3) = data ! (4 * n + 3)"
    using nth [OF lt] by simp
  have step: "f n out = out[4 * n + 3 := alphaRule (bg ! n) (data ! (4 * n + 3))]"
    using old list_update_id [of out "4 * n + 3"]
    by (auto simp: f_def Let_def alphaRule_def)
  have fold: "fold f [0..<Suc n] data = f n out"
    by (simp add: out_def)
  have "f n out ! k =
         (if k mod 4 = 3 \<and> k div 4 < Suc n then alphaRule (bg ! (k div 4)) (data ! k)
          else data ! k)" if k: "k < length data" for k
  proof (cases "k = 4 * n + 3")
    case True
    then show ?thesis using lt len by (simp add: step)
  next
    case False
    then show ?thesis using k len nth [OF k] alpha_index [of k n] by (simp add: step)
  qed
  moreover have "length (f n out) = length data" by (simp add: step len)
  ultimately show ?case unfolding fold by blast
qed

lemma applyAlpha_nth:
  assumes "length data = 4 * length bg" and "k < length data"
  shows "applyAlpha bg data ! k =
     (if k mod 4 = 3 then alphaRule (bg ! (k div 4)) (data ! k) else data ! k)"
proof -
  have "k div 4 < length bg" using assms by simp
  then show ?thesis
    using applyAlpha_take [of "length bg" data bg] assms
    by (simp add: applyAlpha_def)
qed

lemma length_applyAlpha:
  "length data = 4 * length bg \<Longrightarrow> length (applyAlpha bg data) = length data"
  using applyAlpha_take [of "length bg" data bg] by (simp add: applyAlpha_def)

section \<open>The alpha of the intermediate cutout\<close>

text \<open>
  C9, as stated: every pixel that is not background has alpha 255 in the intermediate
  output. It fails for a pixel that is not background and has a source alpha other than
  0: the dark pixel below (luminance 0, alpha 100) is not background and keeps alpha 100.
\<close>

theorem cutout_alpha_not_forced_opaque:
  "cutoutBackground (Fin 220) (Fin 2) [0, 0, 0, 100] 1 1 = [False] \<and>
   cutoutIntermediate (Fin 220) (Fin 2) [0, 0, 0, 100] 1 1 ! 3 = 100"
  by code_simp

text \<open>
  C9, amended: in the intermediate output a background pixel has alpha 0; a pixel that is
  not background has alpha 255 if its source alpha is 0 and keeps its source alpha
  otherwise; the colour channels are those of the source.
\<close>

theorem cutout_alpha_rule:
  assumes "length data = 4 * (W * H)" and "i < W * H"
  shows "cutoutIntermediate t f data W H ! (4 * i + 3) =
           (if cutoutBackground t f data W H ! i then 0
            else if data ! (4 * i + 3) = 0 then 255 else data ! (4 * i + 3))
         \<and> cutoutIntermediate t f data W H ! (4 * i) = data ! (4 * i)
         \<and> cutoutIntermediate t f data W H ! (4 * i + 1) = data ! (4 * i + 1)
         \<and> cutoutIntermediate t f data W H ! (4 * i + 2) = data ! (4 * i + 2)"
proof -
  let ?bg = "cutoutBackground t f data W H"
  have len: "length data = 4 * length ?bg" using assms by simp
  have lt: "4 * i + 3 < length data" "4 * i < length data" "4 * i + 1 < length data"
    "4 * i + 2 < length data" using assms by auto
  have ar: "(4 * i + 3) mod 4 = 3" "(4 * i + 3) div 4 = i" "(4 * i) mod 4 \<noteq> 3"
    "(4 * i + 1) mod 4 \<noteq> 3" "(4 * i + 2) mod 4 \<noteq> 3"
    by presburger+
  show ?thesis
    unfolding cutoutIntermediate_def
    using applyAlpha_nth [OF len lt(1)] applyAlpha_nth [OF len lt(2)]
      applyAlpha_nth [OF len lt(3)] applyAlpha_nth [OF len lt(4)]
    by (simp only: ar alphaRule_def if_True if_False simp_thms)
qed

theorem cutout_alpha_rule_witness:
  "cutoutIntermediate (Fin 220) (Fin 2) [0, 0, 0, 0] 1 1 ! 3 = 255"
proof -
  have bg: "cutoutBackground (Fin 220) (Fin 2) [0, 0, 0, 0] 1 1 = [False]"
    by code_simp
  show ?thesis
    using cutout_alpha_rule [of "[0, 0, 0, 0]" 1 1 0 "Fin 220" "Fin 2"] bg by simp
qed

section \<open>The ring compositor\<close>

lemma edge_mask_nth:
  "i < n \<Longrightarrow> edge_mask expanded n ! i = (if expanded ! (4 * i + 3) > 0 then 1 else 0)"
  by (simp add: edge_mask_def)

lemma length_edge_mask [simp]: "length (edge_mask expanded n) = n"
  by (simp add: edge_mask_def)

text \<open>
  C1. For every pixel \<open>i\<close> of the canvas the ring alpha is 255 exactly when the mask is 0
  there (the alpha of the expanded image is 0) and the computed distance \<open>d\<close> satisfies
  \<open>offsetPx < d \<le> offsetPx + edgePx\<close>, and 0 otherwise. With inner radius 5 and outer
  radius 10 (\<open>offsetPx = 5\<close>, \<open>edgePx = 5\<close>) a background pixel at distance 7 has alpha 255,
  and one at distance 3 or 12 has alpha 0.
\<close>

theorem ring_alpha_band:
  assumes "i < W * H"
  shows "second_edge_ring expanded W H offsetPx edgePx ! i =
           (if edge_mask expanded (W * H) ! i = 0
               \<and> real offsetPx < edge_distance expanded W H ! i
               \<and> edge_distance expanded W H ! i \<le> real (offsetPx + edgePx)
            then 255 else 0)
         \<and> (edge_mask expanded (W * H) ! i = 0) = (expanded ! (4 * i + 3) = 0)
         \<and> (\<forall>msk df. i < length msk \<and> msk ! i = 0 \<and> df ! i = 7
                \<longrightarrow> ring_alpha msk df 5 5 ! i = 255)
         \<and> (\<forall>msk df. i < length msk \<and> msk ! i = 0 \<and> (df ! i = 3 \<or> df ! i = 12)
                \<longrightarrow> ring_alpha msk df 5 5 ! i = 0)"
  using assms
  by (auto simp: second_edge_ring_def ring_alpha_def Let_def edge_mask_nth word_gt_0)

theorem ring_alpha_band_witness:
  "second_edge_ring [0, 0, 0, 0, 9, 9, 9, 255] 2 1 0 1 ! 0 = 255
   \<and> ring_alpha [0] [7] 5 5 ! 0 = 255 \<and> ring_alpha [0] [3] 5 5 ! 0 = 0
   \<and> ring_alpha [0] [12] 5 5 ! 0 = 0"
proof -
  have d: "edge_distance [0, 0, 0, 0, 9, 9, 9, 255] 2 1 = [1, 0]"
    by (simp add: edge_distance_def edge_backward_def edge_forward_def edge_forward_px_def
        edge_backward_px_def relax_def edge_df_init_def edge_mask_def df_INF_def Let_def upt_rec)
  have m: "edge_mask [0, 0, 0, 0, 9, 9, 9, 255] (2 * 1) = [0, 1]"
    by (simp add: edge_mask_def upt_rec)
  show ?thesis
    using ring_alpha_band [of 0 2 1 "[0, 0, 0, 0, 9, 9, 9, 255]" 0 1] d m
    by (simp add: ring_alpha_def)
qed

section \<open>The raster sticker border\<close>

lemma pixelAt_concat_raster:
  assumes "\<And>y x. length (f y x) = 4" and "y < H" and "x < W"
  shows "pixelAt (concat (raster W H f)) (y * W + x) = f y x"
proof -
  have n: "concat (raster W H f) ! ((y * W + x) * 4 + c) = f y x ! c" if "c < 4" for c
    using concat_raster_nth [OF assms(1) assms(2) assms(3) that] .
  from n [of 0] n [of 1] n [of 2] n [of 3]
  have "pixelAt (concat (raster W H f)) (y * W + x) = [f y x ! 0, f y x ! 1, f y x ! 2, f y x ! 3]"
    by (simp add: pixelAt_def)
  moreover have "l = [l ! 0, l ! 1, l ! 2, l ! 3]" if "length l = 4" for l :: "byte list"
    using that by (auto simp: length_Suc_conv numeral_eq_Suc)
  from this [OF assms(1) [of y x]]
  have "[f y x ! 0, f y x ! 1, f y x ! 2, f y x ! 3] = f y x" by simp
  ultimately show ?thesis by simp
qed

text \<open>
  C10. At every canvas position where the padded input has alpha \<open>> 0\<close> the output
  pixel of \<open>createRasterSmoothBorder\<close> equals the input pixel in all four channels, in
  the hard-ring copy and in the smooth-falloff copy. Where the input alpha is 0 the output
  pixel is either untouched (all zero) or white with the border alpha: only those pixels
  receive border colour.
\<close>

theorem raster_border_keeps_subject:
  assumes "y < H" and "x < W"
  shows "(expandedData ! ((y * W + x) * 4 + 3) > 0 \<longrightarrow>
            pixelAt (createRasterSmoothBorder_hard expandedData W H strokePx) (y * W + x)
              = pixelAt expandedData (y * W + x)
          \<and> pixelAt (createRasterSmoothBorder_smooth expandedData W H strokePx softness) (y * W + x)
              = pixelAt expandedData (y * W + x))
       \<and> (expandedData ! ((y * W + x) * 4 + 3) = 0 \<longrightarrow>
            pixelAt (createRasterSmoothBorder_hard expandedData W H strokePx) (y * W + x)
              \<in> {[0, 0, 0, 0], [255, 255, 255, 255]}
          \<and> (\<exists>a. pixelAt (createRasterSmoothBorder_smooth expandedData W H strokePx softness)
                  (y * W + x) \<in> {[0, 0, 0, 0], [255, 255, 255, a]}))"
  unfolding createRasterSmoothBorder_hard_def createRasterSmoothBorder_smooth_def Let_def
  apply (subst pixelAt_concat_raster [OF _ assms], simp)+
  apply (auto simp: pixelAt_def word_gt_0)
  done

theorem raster_border_keeps_subject_witness:
  "pixelAt (createRasterSmoothBorder_hard [10, 20, 30, 40] 1 1 16) 0 = [10, 20, 30, 40]
   \<and> pixelAt (createRasterSmoothBorder_smooth [10, 20, 30, 40] 1 1 16 0.8) 0 = [10, 20, 30, 40]"
  using raster_border_keeps_subject [of 0 1 0 1 "[10, 20, 30, 40]" 16 "0.8"]
  by (simp add: pixelAt_def)

section \<open>The relief shader\<close>

lemma dot_unit_le_1:
  fixes a b c d :: real
  assumes "a\<^sup>2 + b\<^sup>2 = 1" and "c\<^sup>2 + d\<^sup>2 = 1"
  shows "\<bar>a * c + b * d\<bar> \<le> 1"
proof -
  have "(a * c + b * d)\<^sup>2 + (a * d - b * c)\<^sup>2 = (a\<^sup>2 + b\<^sup>2) * (c\<^sup>2 + d\<^sup>2)"
    by (simp add: power2_eq_square algebra_simps)
  moreover have "0 \<le> (a * d - b * c)\<^sup>2" by simp
  ultimately have "(a * c + b * d)\<^sup>2 \<le> 1"
    unfolding assms by linarith
  then show ?thesis
    using abs_le_square_iff [of "a * c + b * d" 1] by simp
qed

lemma ndotl_abs_le_1: "\<bar>ndotl deg gxi gyi\<bar> \<le> 1"
proof (cases "sqrt (gxi\<^sup>2 + gyi\<^sup>2) = 0")
  case True
  then have "gxi = 0" "gyi = 0"
    by (simp_all add: sum_power2_eq_zero_iff)
  then show ?thesis by (simp add: ndotl_def)
next
  case False
  define s where "s = gxi\<^sup>2 + gyi\<^sup>2"
  define h where "h = sqrt s"
  have s: "0 \<le> s" by (simp add: s_def)
  have h: "h \<noteq> 0" using False by (simp add: h_def s_def)
  have h2: "h\<^sup>2 = s" using s by (simp add: h_def)
  have "(gxi / h)\<^sup>2 + (gyi / h)\<^sup>2 = gxi\<^sup>2 / h\<^sup>2 + gyi\<^sup>2 / h\<^sup>2"
    by (simp add: power_divide)
  also have "\<dots> = s / h\<^sup>2"
    unfolding s_def by (simp add: add_divide_distrib)
  also have "\<dots> = 1" using h by (simp add: h2 [symmetric])
  finally have n: "(gxi / h)\<^sup>2 + (gyi / h)\<^sup>2 = 1" .
  have l: "(cos (deg * pi / 180))\<^sup>2 + (sin (deg * pi / 180))\<^sup>2 = 1"
    by (simp add: add.commute)
  show ?thesis
    using dot_unit_le_1 [OF n l] False by (simp add: ndotl_def Let_def h_def s_def)
qed

lemma shadeAlpha_exact:
  assumes "0 \<le> v" and "v \<le> 1"
  shows "int (unat (shadeAlpha (Fin v) (ndotl deg gxi gyi)))
           = js_round (255 * v * \<bar>ndotl deg gxi gyi\<bar>)"
proof -
  let ?d = "\<bar>ndotl deg gxi gyi\<bar>"
  have d: "0 \<le> ?d" "?d \<le> 1" using ndotl_abs_le_1 [of deg gxi gyi] by auto
  have "v * ?d \<le> 1 * 1" using assms d by (intro mult_mono) auto
  then have up: "255 * v * ?d \<le> 255" by simp
  have lo: "0 \<le> 255 * v * ?d" using assms d by simp
  have r0: "0 \<le> js_round (255 * v * ?d)" using lo by (simp add: js_round_def)
  have "255 * v * ?d + 1 / 2 < 256" using up by simp
  then have r1: "js_round (255 * v * ?d) < 256"
    by (simp add: js_round_def floor_less_iff)
  show ?thesis
    using r0 r1 by (simp add: shadeAlpha_def to_byte_def unat_eq_nat_uint uint_word_of_int)
qed


text \<open>
  C5. A rim pixel is written into exactly one of the two layers. With \<open>d\<close> the dot product
  of the normalised gradient with the light vector: if \<open>d < 0\<close> the shadow pixel is black
  with alpha \<open>round (255 * intensity * |d|)\<close> and the highlight pixel is zero; if
  \<open>d \<ge> 0\<close> the highlight pixel is white with alpha \<open>round (255 * intensity * d)\<close> and
  the shadow pixel is zero; a pixel outside the rim is zero in both layers. For an
  intensity in [0,1] the stored byte is that rounded value (no wrap-around).
\<close>

theorem relief_layers:
  assumes "y < H" and "x < W"
    and "rim = rimMask rgba W H r"
    and "g = sobel (map (\<lambda>b. real (unat b) / 255) alphaBlur) W H"
    and "d = ndotl deg (fst g ! (y * W + x)) (snd g ! (y * W + x))"
    and "layers = bevelShade rgba alphaBlur W H r (Fin deg) (Fin v)"
  shows "(rim ! (y * W + x) \<noteq> 0 \<and> d < 0 \<longrightarrow>
            pixelAt (fst layers) (y * W + x) = [0, 0, 0, to_byte (js_round (255 * v * \<bar>d\<bar>))]
          \<and> pixelAt (snd layers) (y * W + x) = [0, 0, 0, 0])
       \<and> (rim ! (y * W + x) \<noteq> 0 \<and> 0 \<le> d \<longrightarrow>
            pixelAt (snd layers) (y * W + x) = [255, 255, 255, to_byte (js_round (255 * v * d))]
          \<and> pixelAt (fst layers) (y * W + x) = [0, 0, 0, 0])
       \<and> (rim ! (y * W + x) = 0 \<longrightarrow>
            pixelAt (fst layers) (y * W + x) = [0, 0, 0, 0]
          \<and> pixelAt (snd layers) (y * W + x) = [0, 0, 0, 0])
       \<and> (0 \<le> v \<and> v \<le> 1 \<longrightarrow>
            int (unat (to_byte (js_round (255 * v * \<bar>d\<bar>)))) = js_round (255 * v * \<bar>d\<bar>))"
proof -
  have len: "length (fst (shadePixel rim' gx gy l k j)) = 4"
    "length (snd (shadePixel rim' gx gy l k j)) = 4" for rim' gx gy l k j
    by (auto simp: shadePixel_def Let_def split: jsnum.splits)
  have px: "pixelAt (fst layers) (y * W + x)
              = fst (shadePixel rim (fst g) (snd g) (Fin deg) (Fin v) (y * W + x))"
    "pixelAt (snd layers) (y * W + x)
              = snd (shadePixel rim (fst g) (snd g) (Fin deg) (Fin v) (y * W + x))"
    unfolding assms(6) bevelShade_def bevelLayers_def Let_def fst_conv snd_conv
      assms(3) [symmetric] assms(4) [symmetric]
    by (rule pixelAt_concat_raster [OF len(1) assms(1,2)],
        rule pixelAt_concat_raster [OF len(2) assms(1,2)])
  have ex: "0 \<le> v \<and> v \<le> 1 \<longrightarrow>
            int (unat (to_byte (js_round (255 * v * \<bar>d\<bar>)))) = js_round (255 * v * \<bar>d\<bar>)"
    using shadeAlpha_exact [of v deg "fst g ! (y * W + x)" "snd g ! (y * W + x)"]
    by (simp add: assms(5) shadeAlpha_def)
  show ?thesis
    unfolding px using ex
    by (auto simp: shadePixel_def Let_def shadeAlpha_def assms(5) [symmetric])
qed

theorem relief_layers_witness:
  "pixelAt (fst (bevelShade (concat (replicate 16 [200, 100, 50, 255]))
       [255, 0, 0, 0, 255, 0, 0, 0, 255, 0, 0, 0, 255, 0, 0, 0] 4 4 2 (Fin 0) (Fin 0.35))) 5
     = [0, 0, 0, 89]
   \<and> pixelAt (snd (bevelShade (concat (replicate 16 [200, 100, 50, 255]))
       [255, 0, 0, 0, 255, 0, 0, 0, 255, 0, 0, 0, 255, 0, 0, 0] 4 4 2 (Fin 0) (Fin 0.35))) 5
     = [0, 0, 0, 0]"
proof -
  let ?rgba = "concat (replicate 16 [200, 100, 50, 255 :: byte])"
  let ?blur = "[255, 0, 0, 0, 255, 0, 0, 0, 255, 0, 0, 0, 255, 0, 0, 0 :: byte]"
  let ?g = "sobel (map (\<lambda>b. real (unat b) / 255) ?blur) 4 4"
  have rim: "rimMask ?rgba 4 4 2 ! (1 * 4 + 1) = 1" by code_simp
  have gx: "fst ?g ! (1 * 4 + 1) = -4" by code_simp
  have gy: "snd ?g ! (1 * 4 + 1) = 0" by code_simp
  have d: "ndotl 0 (fst ?g ! (1 * 4 + 1)) (snd ?g ! (1 * 4 + 1)) = -1"
    unfolding gx gy by (simp add: ndotl_def)
  have a: "to_byte (js_round (255 * 0.35 * \<bar>-1\<bar>)) = 89"
    by (simp add: to_byte_def js_round_def)
  show ?thesis
    using relief_layers [of 1 4 1 4 "rimMask ?rgba 4 4 2" ?rgba 2 ?g ?blur
        "ndotl 0 (fst ?g ! (1 * 4 + 1)) (snd ?g ! (1 * 4 + 1))" 0 _ "0.35", OF _ _ refl refl refl refl]
    unfolding d rim using a by simp
qed

section \<open>The border flood\<close>

lemma visit_fold: "visit nw W H i s = fold (pushIf nw) (neighbours W H i) s"
  by (simp add: visit_def neighbours_def Let_def)

lemma fold_pairs:
  "fold (\<lambda>x s. pushIf nw (g x) (pushIf nw (h x) s)) xs s =
   fold (pushIf nw) (concat (map (\<lambda>x. [h x, g x]) xs)) s"
  by (induction xs arbitrary: s) auto

lemma seedBorders_fold: "seedBorders nw W H s = fold (pushIf nw) (borderSeeds W H) s"
  by (simp add: seedBorders_def borderSeeds_def fold_pairs)

text \<open>What a run of \<open>pushIf\<close> over candidates does to the mask and the worklist.\<close>

lemma pushIf_marked:
  "marked (fst (pushIf nw j (bg, q))) = marked bg \<union> fresh nw (length bg) [j]"
  by (auto simp: pushIf_def marked_def fresh_def nth_list_update)

lemma pushIf_queue:
  "set (snd (pushIf nw j (bg, q))) = set q \<union> (fresh nw (length bg) [j] - marked bg)"
  by (auto simp: pushIf_def marked_def fresh_def)

lemma pushAll:
  "marked (fst (fold (pushIf nw) js (bg, q))) = marked bg \<union> fresh nw (length bg) js \<and>
   set (snd (fold (pushIf nw) js (bg, q))) = set q \<union> (fresh nw (length bg) js - marked bg) \<and>
   length (fst (fold (pushIf nw) js (bg, q))) = length bg"
proof (induction js arbitrary: bg q)
  case Nil
  then show ?case by (simp add: fresh_def)
next
  case (Cons j js)
  obtain bg' q' where p: "pushIf nw j (bg, q) = (bg', q')" by (cases "pushIf nw j (bg, q)")
  have m: "marked bg' = marked bg \<union> fresh nw (length bg) [j]"
    using pushIf_marked [of nw j bg q] p by simp
  have s: "set q' = set q \<union> (fresh nw (length bg) [j] - marked bg)"
    using pushIf_queue [of nw j bg q] p by simp
  have l: "length bg' = length bg" using length_pushIf [of nw j "(bg, q)"] p by simp
  have f2: "fresh nw n (j # js) = fresh nw n [j] \<union> fresh nw n js" for n
    by (auto simp: fresh_def)
  show ?case
    using Cons.IH [of bg' q'] by (auto simp: p m s l f2)
qed

lemma take_next_set:
  "q \<noteq> [] \<Longrightarrow> take_next d q = (i, q') \<Longrightarrow> set q = insert i (set q')"
proof (cases d)
  case Stack
  assume "q \<noteq> []" "take_next d q = (i, q')"
  then have "q = q' @ [i]" using Stack by (auto simp: snoc_eq_iff_butlast)
  then show ?thesis by auto
next
  case Queue
  assume "q \<noteq> []" "take_next d q = (i, q')"
  then have "q = i # q'" using Queue by (cases q) auto
  then show ?thesis by auto
qed

lemma flood_inv_init:
  "flood_inv nw W H (seedBorders nw W H (replicate (W * H) False, []))"
proof -
  let ?s = "fold (pushIf nw) (borderSeeds W H) (replicate (W * H) False, [])"
  have e: "marked (replicate (W * H) False) = {}" by (auto simp: marked_def)
  have p: "marked (fst ?s) = fresh nw (W * H) (borderSeeds W H)"
    "set (snd ?s) = fresh nw (W * H) (borderSeeds W H)" "length (fst ?s) = W * H"
    using pushAll [of nw "borderSeeds W H" "replicate (W * H) False" "[]"] by (simp_all add: e)
  have "fresh nw (W * H) (borderSeeds W H) \<subseteq> reach nw W H"
    by (auto simp: fresh_def intro: reach.seed)
  then show ?thesis
    unfolding flood_inv_def seedBorders_fold p by simp
qed

lemma flood_inv_step:
  assumes inv: "flood_inv nw W H (bg, q)" and q: "q \<noteq> []" and t: "take_next d q = (i, q')"
  shows "flood_inv nw W H (visit nw W H i (bg, q'))"
proof -
  let ?s = "fold (pushIf nw) (neighbours W H i) (bg, q')"
  let ?N = "fresh nw (W * H) (neighbours W H i)"
  have len: "length bg = W * H" and sub: "marked bg \<subseteq> reach nw W H"
    and qs: "set q \<subseteq> marked bg"
    and cl: "\<And>p. p \<in> marked bg \<Longrightarrow> p \<notin> set q \<Longrightarrow> fresh nw (W * H) (neighbours W H p) \<subseteq> marked bg"
    and sd: "fresh nw (W * H) (borderSeeds W H) \<subseteq> marked bg"
    using inv by (auto simp: flood_inv_def)
  have sq: "set q = insert i (set q')" using take_next_set [OF q t] .
  have p: "marked (fst ?s) = marked bg \<union> ?N" "set (snd ?s) = set q' \<union> (?N - marked bg)"
    "length (fst ?s) = W * H"
    using pushAll [of nw "neighbours W H i" bg q'] by (simp_all add: len)
  have i: "i \<in> reach nw W H" using sq qs sub by auto
  have N: "?N \<subseteq> reach nw W H"
    using i by (auto simp: fresh_def intro: reach.step)
  have c: "fresh nw (W * H) (neighbours W H p) \<subseteq> marked bg \<union> ?N"
    if "p \<in> marked bg \<union> ?N" "p \<notin> set q' \<union> (?N - marked bg)" for p
  proof (cases "p = i")
    case True
    then show ?thesis by auto
  next
    case False
    with that have "p \<in> marked bg" "p \<notin> set q" by (auto simp: sq)
    from cl [OF this] show ?thesis by auto
  qed
  show ?thesis
    unfolding flood_inv_def visit_fold p
    using sub N qs sq sd c by auto
qed

lemma flood_inv_final:
  assumes "flood_inv nw W H s"
  shows "marked (floodLoop d nw W H s) = reach nw W H \<and> length (floodLoop d nw W H s) = W * H"
  using assms
proof (induction d nw W H s rule: floodLoop.induct)
  case (1 d nw W H bg q)
  show ?case
  proof (cases "q = []")
    case True
    have len: "length bg = W * H" and sub: "marked bg \<subseteq> reach nw W H"
      and cl: "\<And>p. p \<in> marked bg \<Longrightarrow> fresh nw (W * H) (neighbours W H p) \<subseteq> marked bg"
      and sd: "fresh nw (W * H) (borderSeeds W H) \<subseteq> marked bg"
      using "1.prems" True by (auto simp: flood_inv_def)
    have "j \<in> marked bg" if "j \<in> reach nw W H" for j
      using that
    proof (induction rule: reach.induct)
      case (seed i)
      then show ?case using sd by (auto simp: fresh_def)
    next
      case (step i j)
      then show ?case using cl [of i] by (auto simp: fresh_def)
    qed
    then show ?thesis using sub len True by auto
  next
    case False
    obtain i q' where t: "take_next d q = (i, q')" by (cases "take_next d q")
    have "flood_inv nw W H (visit nw W H i (bg, q'))"
      using flood_inv_step [OF "1.prems" False t] .
    then have "marked (floodLoop d nw W H (visit nw W H i (bg, q'))) = reach nw W H \<and>
          length (floodLoop d nw W H (visit nw W H i (bg, q'))) = W * H"
      using False t by (intro "1.IH") auto
    then show ?thesis using False t by simp
  qed
qed

lemma borderFlood_reach:
  "marked (borderFlood d nw W H) = reach nw W H"
  using flood_inv_final [OF flood_inv_init] by (simp add: borderFlood_def)

lemma borderFlood_nth:
  "i < W * H \<Longrightarrow> borderFlood d nw W H ! i \<longleftrightarrow> i \<in> reach nw W H"
  using borderFlood_reach [of d nw W H] by (auto simp: marked_def)

text \<open>
  C7. The background mask of the border flood does not depend on the worklist discipline:
  the stack of the source and a queue give the same mask, for every near-white mask (so
  for every image and tolerance) and every size.
\<close>

theorem flood_discipline_independent:
  "borderFlood Stack nearWhite W H = borderFlood Queue nearWhite W H"
  by (rule nth_equalityI) (simp_all add: borderFlood_nth)

lemma reach_all:
  assumes nw: "\<And>i. i < W * H \<Longrightarrow> nw ! i" and y: "y < H" and x: "x < W"
  shows "y * W + x \<in> reach nw W H"
  using x
proof (induction x)
  case 0
  have "y * W \<in> set (borderSeeds W H)" using y by (auto simp: borderSeeds_def)
  moreover have "y * W < W * H" using row_major_lt [OF y 0] by simp
  ultimately show ?case using nw by (auto intro: reach.seed)
next
  case (Suc x)
  then have x: "x < W" and r: "y * W + x \<in> reach nw W H" by auto
  have d: "(y * W + x) div W = y" using x by simp
  have "y * W + x + 1 \<in> set (neighbours W H (y * W + x))"
    using Suc.prems by (auto simp: neighbours_def Let_def d)
  moreover have "y * W + Suc x < W * H" using row_major_lt [OF y Suc.prems] .
  ultimately show ?case using reach.step [OF r, of "y * W + Suc x"] nw by simp
qed

lemma borderFlood_all:
  assumes "\<And>i. i < W * H \<Longrightarrow> nw ! i"
  shows "borderFlood d nw W H = replicate (W * H) True"
proof (rule nth_equalityI)
  show "length (borderFlood d nw W H) = length (replicate (W * H) True)" by simp
next
  fix i assume "i < length (borderFlood d nw W H)"
  then have i: "i < W * H" by simp
  then have W: "0 < W" by (cases W) auto
  have "i div W < H" using i W by (simp add: less_mult_imp_div_less mult.commute)
  then have "i div W * W + i mod W \<in> reach nw W H"
    using W assms by (intro reach_all) auto
  then have "i \<in> reach nw W H" by simp
  then show "borderFlood d nw W H ! i = replicate (W * H) True ! i"
    using i by (simp add: borderFlood_nth)
qed


lemma luminance_nonneg: "0 \<le> luminance r g b"
  unfolding luminance_def by (intro add_nonneg_nonneg mult_nonneg_nonneg of_nat_0_le_iff) simp_all










lemma nearWhite_zero: "nearWhiteMask (Fin 0) data n = replicate n True"
  by (rule nth_equalityI) (simp_all add: nearWhiteMask_def luminance_nonneg)






text \<open>
  C3, as stated: with tolerance 0 no pixel qualifies and the background mask is empty.
  It fails: the argument 0 is replaced by 220, and a white pixel qualifies under either
  threshold; with threshold 0 even a black pixel qualifies. On the 3x3 all-white image
  with feather 1 the centre is background and loses its alpha, so the run is not a no-op.
\<close>

theorem zero_tolerance_not_empty:
  "cutout_tolerance (Fin 0) = Fin 220
   \<and> nearWhiteMask (cutout_tolerance (Fin 0)) (concat (replicate 9 [255, 255, 255, 255])) 9
       = replicate 9 True
   \<and> nearWhiteMask (Fin 0) [0, 0, 0, 255] 1 = [True]
   \<and> cutoutBackground (Fin 0) (Fin 1) (concat (replicate 9 [255, 255, 255, 255])) 3 3 ! 4
   \<and> cutoutIntermediate (Fin 0) (Fin 1) (concat (replicate 9 [255, 255, 255, 255])) 3 3 ! 19 = 0"
  by code_simp

text \<open>
  C3, amended: a pixel qualifies iff its luminance is at least the effective tolerance,
  so with an effective tolerance of 0 every pixel qualifies and the border flood marks
  every pixel as background (a full mask, not an empty one).
\<close>

theorem zero_tolerance_marks_everything:
  assumes "cutout_tolerance rawTolerance = Fin 0"
  shows "nearWhiteMask (cutout_tolerance rawTolerance) data (W * H) = replicate (W * H) True
       \<and> borderFlood Stack (nearWhiteMask (cutout_tolerance rawTolerance) data (W * H)) W H
           = replicate (W * H) True"
  unfolding assms nearWhite_zero
  by (simp add: borderFlood_all)

theorem zero_tolerance_marks_everything_witness:
  "nearWhiteMask (cutout_tolerance (Fin (- 1))) [0, 0, 0, 255] (1 * 1) = [True]
   \<and> borderFlood Stack (nearWhiteMask (cutout_tolerance (Fin (- 1))) [0, 0, 0, 255] (1 * 1)) 1 1
        = [True]"
proof -
  have t: "cutout_tolerance (Fin (- 1)) = Fin 0" by (simp add: cutout_tolerance_def)
  have e: "replicate (1 * 1) True = [True]" by simp
  from zero_tolerance_marks_everything [OF t, of "[0, 0, 0, 255]" 1 1]
  show ?thesis unfolding e .
qed

section \<open>The largest connected component\<close>

lemma pickLargest_snoc:
  "pickLargest (cs @ [c]) =
     (if length c > snd (pickLargest cs) then (Some c, length c) else pickLargest cs)"
  by (simp add: pickLargest_def split: prod.splits)

lemma pickLargest_first:
  "(\<forall>j < length cs. length (cs ! j) \<le> snd (pickLargest cs)) \<and>
   (pickLargest cs = (None, 0) \<or>
    (\<exists>k < length cs. fst (pickLargest cs) = Some (cs ! k) \<and> length (cs ! k) = snd (pickLargest cs)
        \<and> (\<forall>j < k. length (cs ! j) < length (cs ! k))))"
proof (induction cs rule: rev_induct)
  case Nil
  then show ?case by (simp add: pickLargest_def)
next
  case (snoc c cs)
  let ?m = "snd (pickLargest cs)"
  have le: "\<And>j. j < length cs \<Longrightarrow> length (cs ! j) \<le> ?m" using snoc by blast
  show ?case
  proof (cases "length c > ?m")
    case True
    have p: "pickLargest (cs @ [c]) = (Some c, length c)" using True by (simp add: pickLargest_snoc)
    have a: "\<forall>j < length (cs @ [c]). length ((cs @ [c]) ! j) \<le> length c"
      using le True by (auto simp: nth_append less_Suc_eq intro: less_imp_le le_less_trans)
    have b: "length cs < length (cs @ [c]) \<and> Some c = Some ((cs @ [c]) ! length cs)
       \<and> length ((cs @ [c]) ! length cs) = length c
       \<and> (\<forall>j < length cs. length ((cs @ [c]) ! j) < length ((cs @ [c]) ! length cs))"
      using le True by (auto simp: nth_append intro: le_less_trans)
    show ?thesis unfolding p fst_conv snd_conv using a b by blast
  next
    case False
    have p: "pickLargest (cs @ [c]) = pickLargest cs" using False by (simp add: pickLargest_snoc)
    have a: "\<forall>j < length (cs @ [c]). length ((cs @ [c]) ! j) \<le> ?m"
      using le False by (auto simp: nth_append less_Suc_eq)
    from snoc have "pickLargest cs = (None, 0) \<or>
      (\<exists>k < length cs. fst (pickLargest cs) = Some (cs ! k) \<and> length (cs ! k) = ?m
        \<and> (\<forall>j < k. length (cs ! j) < length (cs ! k)))" by blast
    then have b: "pickLargest cs = (None, 0) \<or>
      (\<exists>k < length (cs @ [c]). fst (pickLargest cs) = Some ((cs @ [c]) ! k)
        \<and> length ((cs @ [c]) ! k) = ?m
        \<and> (\<forall>j < k. length ((cs @ [c]) ! j) < length ((cs @ [c]) ! k)))"
    proof
      assume "pickLargest cs = (None, 0)" then show ?thesis by simp
    next
      assume "\<exists>k < length cs. fst (pickLargest cs) = Some (cs ! k) \<and> length (cs ! k) = ?m
        \<and> (\<forall>j < k. length (cs ! j) < length (cs ! k))"
      then obtain k where k: "k < length cs" "fst (pickLargest cs) = Some (cs ! k)"
        "length (cs ! k) = ?m" "\<forall>j < k. length (cs ! j) < length (cs ! k)" by blast
      have "k < length (cs @ [c]) \<and> fst (pickLargest cs) = Some ((cs @ [c]) ! k)
        \<and> length ((cs @ [c]) ! k) = ?m
        \<and> (\<forall>j < k. length ((cs @ [c]) ! j) < length ((cs @ [c]) ! k))"
        using k by (auto simp: nth_append)
      then show ?thesis by blast
    qed
    show ?thesis unfolding p using a b by blast
  qed
qed

lemma pickLargest_nonempty:
  assumes "cs \<noteq> []" and "\<And>c. c \<in> set cs \<Longrightarrow> 0 < length c"
  shows "\<exists>k < length cs. fst (pickLargest cs) = Some (cs ! k)
        \<and> (\<forall>j < length cs. length (cs ! j) \<le> length (cs ! k))
        \<and> (\<forall>j < k. length (cs ! j) < length (cs ! k))"
proof -
  have "0 < length cs" using assms(1) by simp
  then have "0 < length (cs ! 0)" using assms(2) [of "cs ! 0"] by simp
  moreover have "length (cs ! 0) \<le> snd (pickLargest cs)"
    using pickLargest_first [of cs] \<open>0 < length cs\<close> by blast
  ultimately have "pickLargest cs \<noteq> (None, 0)" by auto
  then show ?thesis using pickLargest_first [of cs] by metis
qed



lemma grow_refl: "grow W H opaque s s"
  unfolding grow_def by (rule exI [of _ "[]"]) simp

lemma grow_trans:
  assumes "grow W H opaque s s1" and "grow W H opaque s1 s2"
  shows "grow W H opaque s s2"
proof -
  obtain n1 where 1: "snd s1 = snd s @ n1" "fst s1 = fst s \<union> set n1" "set n1 \<inter> fst s = {}"
    "\<forall>i \<in> set n1. i < W * H \<and> opaque ! i"
    using assms(1) unfolding grow_def by blast
  obtain n2 where 2: "snd s2 = snd s1 @ n2" "fst s2 = fst s1 \<union> set n2" "set n2 \<inter> fst s1 = {}"
    "\<forall>i \<in> set n2. i < W * H \<and> opaque ! i"
    using assms(2) unfolding grow_def by blast
  show ?thesis
    unfolding grow_def
    using 1 2 by (intro exI [of _ "n1 @ n2"]) auto
qed

lemma grow_tryNeighbour: "grow W H opaque s (tryNeighbour W H opaque cy cx d s)"
proof (cases d, cases s)
  fix dy dx visited queue
  assume d: "d = (dy, dx)" and s: "s = (visited, queue)"
  show ?thesis
  proof (cases "0 \<le> int cy + dy \<and> int cy + dy < int H \<and> 0 \<le> int cx + dx \<and> int cx + dx < int W
      \<and> opaque ! nat ((int cy + dy) * int W + (int cx + dx))
      \<and> nat ((int cy + dy) * int W + (int cx + dx)) \<notin> visited")
    case False
    then have "tryNeighbour W H opaque cy cx d s = s"
      by (auto simp: tryNeighbour_def d s Let_def)
    then show ?thesis by (simp add: grow_refl)
  next
    case True
    define ny where "ny = nat (int cy + dy)"
    define nx where "nx = nat (int cx + dx)"
    have ny: "int cy + dy = int ny" "ny < H" and nx: "int cx + dx = int nx" "nx < W"
      using True by (auto simp: ny_def nx_def)
    have ni: "nat ((int cy + dy) * int W + (int cx + dx)) = ny * W + nx"
      unfolding ny nx by (simp add: nat_add_distrib nat_mult_distrib)
    let ?ni = "ny * W + nx"
    have lt: "?ni < W * H" using row_major_lt [OF ny(2) nx(2)] .
    have t: "tryNeighbour W H opaque cy cx d s = (insert ?ni visited, queue @ [?ni])"
      using True by (auto simp: tryNeighbour_def d s Let_def ni)
    have o: "opaque ! ?ni" and nv: "?ni \<notin> visited" using True ni by auto
    show ?thesis
      unfolding grow_def t unfolding s fst_conv snd_conv using o nv lt
      by (intro exI [of _ "[?ni]"]) simp
  qed
qed

lemma grow_fold: "grow W H opaque s (fold (tryNeighbour W H opaque cy cx) ds s)"
proof (induction ds arbitrary: s)
  case Nil
  then show ?case by (simp add: grow_refl)
next
  case (Cons d ds)
  show ?case
    using grow_trans [OF grow_tryNeighbour Cons.IH] by simp
qed

lemma set_add_set [simp]: "set (set_add v c) = insert v (set c)"
  by (auto simp: set_add_def)

lemma set_add_hd: "set_add v c \<noteq> [] \<and> hd (set_add v c) = (if c = [] then v else hd c)"
  by (auto simp: set_add_def)


declare bfs.simps [simp del]

lemma bfs_Nil: "bfs W H opaque (visited, [], component) = (visited, component)"
  by (subst bfs.simps) simp

lemma bfs_Cons:
  "bfs W H opaque (visited, cur # rest, component) =
     (case fold (tryNeighbour W H opaque (cur div W) (cur mod W)) offsets8 (visited, rest) of
        (visited', queue') \<Rightarrow> bfs W H opaque (visited', queue', set_add cur component))"
  by (subst bfs.simps) (simp add: Let_def)

lemma bfs_facts:
  assumes "set component \<union> set queue \<subseteq> visited"
    and "\<forall>i \<in> set component \<union> set queue. i < W * H \<and> opaque ! i"
    and "bfs W H opaque (visited, queue, component) = (visited', component')"
  shows "visited \<subseteq> visited' \<and> set component' \<subseteq> visited'
       \<and> set component' \<subseteq> set component \<union> set queue \<union> (visited' - visited)
       \<and> (\<forall>i \<in> set component'. i < W * H \<and> opaque ! i)
       \<and> (component \<noteq> [] \<longrightarrow> component' \<noteq> [] \<and> hd component' = hd component)
       \<and> (component = [] \<and> queue \<noteq> [] \<longrightarrow> component' \<noteq> [] \<and> hd component' = hd queue)"
  using assms
proof (induction W H opaque "(visited, queue, component)" arbitrary: visited queue component
    rule: bfs.induct)
  case (1 W H opaque visited queue component)
  show ?case
  proof (cases queue)
    case Nil
    then have "visited' = visited" "component' = component"
      using "1.prems"(3) by (simp_all add: bfs_Nil)
    then show ?thesis using "1.prems"(1,2) Nil by auto
  next
    case (Cons cur rest)
    define c1 where "c1 = set_add cur component"
    obtain v1 q1 where f: "fold (tryNeighbour W H opaque (cur div W) (cur mod W)) offsets8
        (visited, rest) = (v1, q1)" by (cases "fold (tryNeighbour W H opaque (cur div W) (cur mod W)) offsets8
        (visited, rest)")
    have g: "grow W H opaque (visited, rest) (v1, q1)"
      using grow_fold [of W H opaque "(visited, rest)" "cur div W" "cur mod W" offsets8] f by simp
    then obtain new where n: "q1 = rest @ new" "v1 = visited \<union> set new" "set new \<inter> visited = {}"
      "\<forall>i \<in> set new. i < W * H \<and> opaque ! i"
      unfolding grow_def by auto
    have step: "bfs W H opaque (visited, queue, component) = bfs W H opaque (v1, q1, c1)"
      unfolding Cons bfs_Cons f c1_def by simp
    have sc1: "set c1 = insert cur (set component)" by (simp add: c1_def)
    have sq: "set queue = insert cur (set rest)" by (simp add: Cons)
    have p1: "set c1 \<union> set q1 \<subseteq> v1"
      using "1.prems"(1) unfolding sc1 sq n by auto
    have p2: "\<forall>i \<in> set c1 \<union> set q1. i < W * H \<and> opaque ! i"
      using "1.prems"(2) n(4) unfolding sc1 sq n(1) by auto
    have p3: "bfs W H opaque (v1, q1, c1) = (visited', component')"
      using "1.prems"(3) step by simp
    have ih: "v1 \<subseteq> visited' \<and> set component' \<subseteq> visited'
       \<and> set component' \<subseteq> set c1 \<union> set q1 \<union> (visited' - v1)
       \<and> (\<forall>i \<in> set component'. i < W * H \<and> opaque ! i)
       \<and> (c1 \<noteq> [] \<longrightarrow> component' \<noteq> [] \<and> hd component' = hd c1)
       \<and> (c1 = [] \<and> q1 \<noteq> [] \<longrightarrow> component' \<noteq> [] \<and> hd component' = hd q1)"
      using "1.hyps" [OF Cons c1_def refl refl f [symmetric] p1 p2 p3] .
    have h: "c1 \<noteq> []" "hd c1 = (if component = [] then cur else hd component)"
      using set_add_hd [of cur component] by (auto simp: c1_def)
    have nv: "set new \<subseteq> visited'" using ih n(2) by auto
    have sub: "set c1 \<union> set q1 \<union> (visited' - v1) \<subseteq> set component \<union> set queue \<union> (visited' - visited)"
      unfolding sc1 sq n(1) n(2) using nv n(3) by auto
    have v: "visited \<subseteq> visited'" using ih n(2) by auto
    have hq: "hd queue = cur" by (simp add: Cons)
    show ?thesis
      using ih h sub v hq by (simp only: if_split) blast
  qed
qed


lemma fold_rows:
  "fold (\<lambda>y. fold (\<lambda>x. f (y * W + x)) [0..<W]) [0..<H] s = fold f [0..<H * W] s"
proof (induction H arbitrary: s)
  case 0
  then show ?case by simp
next
  case (Suc H)
  have "[0..<Suc H * W] = [0..<H * W] @ map (\<lambda>x. H * W + x) [0..<W]"
  proof -
    have "map (\<lambda>x. x + H * W) [0..<W] = [H * W..<W + H * W]" by (rule map_add_upt)
    then have "map (\<lambda>x. H * W + x) [0..<W] = [H * W..<H * W + W]"
      by (simp add: add.commute)
    moreover have "[0..<H * W + W] = [0..<H * W] @ [H * W..<H * W + W]"
      by (rule upt_add_eq_append) simp
    ultimately show ?thesis by (simp add: add.commute)
  qed
  then show ?case using Suc by (simp add: fold_map comp_def)
qed


lemma scan_inv_step:
  assumes inv: "scan_inv W H opaque n s" and n: "n < W * H"
  shows "scan_inv W H opaque (Suc n) (scanStep W H opaque n s)"
proof (cases s)
  case (Pair visited comps)
  have cs: "\<And>c. c \<in> set comps \<Longrightarrow> c \<noteq> [] \<and> hd c < n \<and> set c \<subseteq> visited \<and> 10 < length c
          \<and> (\<forall>i \<in> set c. i < W * H \<and> opaque ! i)"
    and pw: "\<And>j k. j < k \<Longrightarrow> k < length comps \<Longrightarrow>
            set (comps ! j) \<inter> set (comps ! k) = {} \<and> hd (comps ! j) < hd (comps ! k)"
    using inv unfolding scan_inv_def Pair by auto
  show ?thesis
  proof (cases "\<not> opaque ! n \<or> n \<in> visited")
    case True
    then have "scanStep W H opaque n s = s" by (auto simp: scanStep_def Pair)
    moreover have "scan_inv W H opaque (Suc n) s"
      unfolding scan_inv_def Pair fst_conv snd_conv using cs pw by (auto intro: less_SucI)
    ultimately show ?thesis by simp
  next
    case False
    obtain v' comp where b: "bfs W H opaque (insert n visited, [n], []) = (v', comp)"
      by (cases "bfs W H opaque (insert n visited, [n], [])")
    have f: "insert n visited \<subseteq> v'" "set comp \<subseteq> v'"
      "set comp \<subseteq> {n} \<union> (v' - insert n visited)"
      "\<forall>i \<in> set comp. i < W * H \<and> opaque ! i" "comp \<noteq> []" "hd comp = n"
      using bfs_facts [OF _ _ b] False n by auto
    have disj: "set comp \<inter> visited = {}" using f(3) False by auto
    have vis: "\<And>c x. c \<in> set comps \<Longrightarrow> x \<in> set c \<Longrightarrow> x \<in> v'"
      using cs f(1) by blast
    have old: "scan_inv W H opaque (Suc n) (v', comps)"
      unfolding scan_inv_def fst_conv snd_conv using cs pw vis
      by (auto intro: less_SucI)
    show ?thesis
    proof (cases "length comp > 10")
      case small: False
      then have "scanStep W H opaque n s = (v', comps)"
        using False b by (auto simp: scanStep_def Pair)
      then show ?thesis using old by simp
    next
      case big: True
      then have st: "scanStep W H opaque n s = (v', comps @ [comp])"
        using False b by (auto simp: scanStep_def Pair)
      have a: "c \<noteq> [] \<and> hd c < Suc n \<and> set c \<subseteq> v' \<and> 10 < length c
          \<and> (\<forall>i \<in> set c. i < W * H \<and> opaque ! i)" if "c \<in> set (comps @ [comp])" for c
      proof (cases "c = comp")
        case True
        then show ?thesis using f big by auto
      next
        case False
        then have "c \<in> set comps" using that by auto
        from cs [OF this] vis [OF this] show ?thesis by (auto intro: less_SucI)
      qed
      have p: "set ((comps @ [comp]) ! j) \<inter> set ((comps @ [comp]) ! k) = {}
          \<and> hd ((comps @ [comp]) ! j) < hd ((comps @ [comp]) ! k)"
        if jk: "j < k" "k < length (comps @ [comp])" for j k
      proof (cases "k < length comps")
        case True
        then show ?thesis using pw [OF jk(1) True] jk by (simp add: nth_append)
      next
        case False
        then have k: "k = length comps" using jk by simp
        have j: "j < length comps" using jk k by simp
        then have "comps ! j \<in> set comps" by simp
        from cs [OF this] disj f(6) show ?thesis
          using j by (auto simp: k nth_append)
      qed
      show ?thesis
        unfolding st scan_inv_def fst_conv snd_conv using a p by blast
    qed
  qed
qed

lemma scan_inv_fold:
  "n \<le> W * H \<Longrightarrow> scan_inv W H opaque n (fold (scanStep W H opaque) [0..<n] ({}, []))"
proof (induction n)
  case 0
  then show ?case by (simp add: scan_inv_def)
next
  case (Suc n)
  then show ?case using scan_inv_step [of W H opaque n] by simp
qed

lemma findComponents_inv:
  "scan_inv W H opaque (W * H) ({}, findComponents W H opaque) \<or>
   (\<exists>v. scan_inv W H opaque (W * H) (v, findComponents W H opaque))"
proof -
  let ?s = "fold (scanStep W H opaque) [0..<W * H] ({}, [])"
  have "findComponents W H opaque = snd ?s"
    unfolding findComponents_def using fold_rows [of "scanStep W H opaque" W H] 
    by (simp add: mult.commute)
  moreover have "scan_inv W H opaque (W * H) ?s" by (rule scan_inv_fold) simp
  ultimately have "scan_inv W H opaque (W * H) (fst ?s, findComponents W H opaque)" by simp
  then show ?thesis by blast
qed


lemma fold_alpha_update:
  fixes g :: "nat \<Rightarrow> byte \<Rightarrow> byte"
  assumes "4 * n \<le> length data"
  defines "f \<equiv> (\<lambda>i out. out[4 * i + 3 := g i (out ! (4 * i + 3))])"
  shows "length (fold f [0..<n] data) = length data \<and>
     (\<forall>k < length data. fold f [0..<n] data ! k =
         (if k mod 4 = 3 \<and> k div 4 < n then g (k div 4) (data ! k) else data ! k))"
  using assms(1)
proof (induction n)
  case 0
  then show ?case by simp
next
  case (Suc n)
  define out where "out = fold f [0..<n] data"
  have len: "length out = length data"
    and nth: "\<And>k. k < length data \<Longrightarrow> out ! k =
         (if k mod 4 = 3 \<and> k div 4 < n then g (k div 4) (data ! k) else data ! k)"
    using Suc by (auto simp: out_def)
  have lt: "4 * n + 3 < length data" using Suc.prems by simp
  have old: "out ! (4 * n + 3) = data ! (4 * n + 3)"
    using nth [OF lt] by simp
  have step: "f n out = out[4 * n + 3 := g n (data ! (4 * n + 3))]"
    using old by (simp add: f_def)
  have fold: "fold f [0..<Suc n] data = f n out"
    by (simp add: out_def)
  have "f n out ! k =
         (if k mod 4 = 3 \<and> k div 4 < Suc n then g (k div 4) (data ! k) else data ! k)"
    if k: "k < length data" for k
  proof (cases "k = 4 * n + 3")
    case True
    then show ?thesis using lt len by (simp add: step)
  next
    case False
    then show ?thesis using k len nth [OF k] alpha_index [of k n] by (simp add: step)
  qed
  moreover have "length (f n out) = length data" by (simp add: step len)
  ultimately show ?case unfolding fold by blast
qed

lemma keepLargest_nth:
  assumes "length cleanedImage = 4 * n" and "i < n"
  shows "keepLargest (Some c) cleanedImage n ! (4 * i + 3) =
           (if cleanedImage ! (4 * i + 3) > 50 \<and> i \<notin> set c then 0 else cleanedImage ! (4 * i + 3))"
proof -
  let ?g = "\<lambda>i a. if a > (50 :: byte) \<and> i \<notin> set c then 0 else a"
  have e: "(\<lambda>i final. let p = 4 * i + 3
                          in if final ! p > 50 \<and> i \<notin> set c then final[p := 0] else final)
         = (\<lambda>i out. out[4 * i + 3 := ?g i (out ! (4 * i + 3))])"
    by (intro ext) (simp add: Let_def)
  have lt: "4 * i + 3 < length cleanedImage" using assms by simp
  have ar: "(4 * i + 3) mod 4 = 3" "(4 * i + 3) div 4 = i" by presburger+
  have "4 * n \<le> length cleanedImage" using assms by simp
  from fold_alpha_update [OF this, of ?g] lt
  have "fold (\<lambda>i out. out[4 * i + 3 := ?g i (out ! (4 * i + 3))]) [0..<n] cleanedImage ! (4 * i + 3)
      = (if (4 * i + 3) mod 4 = 3 \<and> (4 * i + 3) div 4 < n
         then ?g ((4 * i + 3) div 4) (cleanedImage ! (4 * i + 3)) else cleanedImage ! (4 * i + 3))"
    by blast
  then show ?thesis
    unfolding keepLargest_def option.case e ar using assms(2) by simp
qed

lemma opaqueMask_nth: "i < n \<Longrightarrow> opaqueMask cleanedImage n ! i \<longleftrightarrow> cleanedImage ! (4 * i + 3) > 128"
  by (simp add: opaqueMask_def)

lemma byte_gt_128_50: "a > 128 \<Longrightarrow> a > 50" for a :: byte
  by (simp add: word_less_nat_alt)

text \<open>
  C6. When some component is retained, the component kept is \<open>comps ! k\<close> with \<open>k\<close> the
  first index of maximal size: every retained component of the same size comes later in
  the list and was met later by the scan (its first cell, the head of its list, has a
  larger row-major index). Every pixel of every other retained component, and every other
  pixel with alpha above 50 (so every pixel of a discarded small component), has alpha 0
  after step 9; the pixels of the kept component keep their alpha.
\<close>

theorem largest_component_first_in_scan_order:
  assumes len: "length cleanedImage = 4 * (W * H)"
    and comps: "comps = findComponents W H (opaqueMask cleanedImage (W * H))"
    and ne: "comps \<noteq> []"
  shows "\<exists>k < length comps. fst (pickLargest comps) = Some (comps ! k)
      \<and> (\<forall>j < length comps. length (comps ! j) \<le> length (comps ! k))
      \<and> (\<forall>j < length comps. j \<noteq> k \<and> length (comps ! j) = length (comps ! k)
            \<longrightarrow> k < j \<and> hd (comps ! k) < hd (comps ! j))
      \<and> (\<forall>j < length comps. j \<noteq> k \<longrightarrow>
            (\<forall>i \<in> set (comps ! j). selectLargest cleanedImage W H ! (4 * i + 3) = 0))
      \<and> (\<forall>i < W * H. i \<notin> set (comps ! k) \<and> cleanedImage ! (4 * i + 3) > 50
            \<longrightarrow> selectLargest cleanedImage W H ! (4 * i + 3) = 0)
      \<and> (\<forall>i \<in> set (comps ! k).
            selectLargest cleanedImage W H ! (4 * i + 3) = cleanedImage ! (4 * i + 3))"
proof -
  let ?op = "opaqueMask cleanedImage (W * H)"
  obtain v where inv: "scan_inv W H ?op (W * H) (v, comps)"
    using findComponents_inv [of W H ?op] comps by blast
  have cs: "\<And>c. c \<in> set comps \<Longrightarrow> c \<noteq> [] \<and> 10 < length c
          \<and> (\<forall>i \<in> set c. i < W * H \<and> ?op ! i)"
    and pw: "\<And>j k. j < k \<Longrightarrow> k < length comps \<Longrightarrow>
            set (comps ! j) \<inter> set (comps ! k) = {} \<and> hd (comps ! j) < hd (comps ! k)"
    using inv unfolding scan_inv_def by auto
  have pos: "\<And>c. c \<in> set comps \<Longrightarrow> 0 < length c" using cs by fastforce
  obtain k where k: "k < length comps" "fst (pickLargest comps) = Some (comps ! k)"
    "\<forall>j < length comps. length (comps ! j) \<le> length (comps ! k)"
    "\<forall>j < k. length (comps ! j) < length (comps ! k)"
    using pickLargest_nonempty [OF ne pos] by blast
  have sel: "selectLargest cleanedImage W H = keepLargest (Some (comps ! k)) cleanedImage (W * H)"
    unfolding selectLargest_def Let_def comps [symmetric] k(2) ..
  have px: "selectLargest cleanedImage W H ! (4 * i + 3) =
           (if cleanedImage ! (4 * i + 3) > 50 \<and> i \<notin> set (comps ! k) then 0
            else cleanedImage ! (4 * i + 3))" if "i < W * H" for i
    unfolding sel using keepLargest_nth [OF len that] .
  have tie: "k < j \<and> hd (comps ! k) < hd (comps ! j)"
    if j: "j < length comps" "j \<noteq> k" "length (comps ! j) = length (comps ! k)" for j
  proof -
    have "\<not> j < k" using k(4) j(3) by auto
    then have "k < j" using j(2) by simp
    then show ?thesis using pw [OF _ j(1)] by simp
  qed
  have other: "selectLargest cleanedImage W H ! (4 * i + 3) = 0"
    if j: "j < length comps" "j \<noteq> k" and i: "i \<in> set (comps ! j)" for j i
  proof -
    have c: "comps ! j \<in> set comps" using j by simp
    have il: "i < W * H" and op: "?op ! i" using cs [OF c] i by auto
    have a: "cleanedImage ! (4 * i + 3) > 50"
      using op opaqueMask_nth [OF il, of cleanedImage] byte_gt_128_50 by simp
    have "set (comps ! j) \<inter> set (comps ! k) = {}"
    proof (cases "j < k")
      case True
      then show ?thesis using pw [OF True k(1)] by simp
    next
      case False
      then have "k < j" using j(2) by simp
      then show ?thesis using pw [OF _ j(1)] by auto
    qed
    then have "i \<notin> set (comps ! k)" using i by auto
    then show ?thesis using px [OF il] a by simp
  qed
  have kept: "selectLargest cleanedImage W H ! (4 * i + 3) = cleanedImage ! (4 * i + 3)"
    if i: "i \<in> set (comps ! k)" for i
  proof -
    have c: "comps ! k \<in> set comps" using k(1) by simp
    have il: "i < W * H" using cs [OF c] i by auto
    show ?thesis using px [OF il] i by simp
  qed
  have px0: "selectLargest cleanedImage W H ! (4 * i + 3) = 0"
    if "i < W * H" "i \<notin> set (comps ! k) \<and> cleanedImage ! (4 * i + 3) > 50" for i
    using px [OF that(1)] that(2) by simp
  show ?thesis
  proof (intro exI [of _ k] conjI allI impI ballI)
    show "k < length comps" by (rule k(1))
    show "fst (pickLargest comps) = Some (comps ! k)" by (rule k(2))
    show "length (comps ! j) \<le> length (comps ! k)" if "j < length comps" for j
      using k(3) that by simp
    show "k < j" if "j < length comps" "j \<noteq> k \<and> length (comps ! j) = length (comps ! k)" for j
      using tie [of j] that by simp
    show "hd (comps ! k) < hd (comps ! j)"
      if "j < length comps" "j \<noteq> k \<and> length (comps ! j) = length (comps ! k)" for j
      using tie [of j] that by simp
    show "selectLargest cleanedImage W H ! (4 * i + 3) = 0"
      if "j < length comps" "j \<noteq> k" "i \<in> set (comps ! j)" for j i
      using other [OF that] .
    show "selectLargest cleanedImage W H ! (4 * i + 3) = 0"
      if "i < W * H" "i \<notin> set (comps ! k) \<and> 50 < cleanedImage ! (4 * i + 3)" for i
      using px0 [OF that] .
    show "selectLargest cleanedImage W H ! (4 * i + 3) = cleanedImage ! (4 * i + 3)"
      if "i \<in> set (comps ! k)" for i
      using kept [OF that] .
  qed
qed


theorem largest_component_first_in_scan_order_witness:
  "fst (pickLargest (findComponents 23 1 (opaqueMask
      (concat (replicate 11 [9, 9, 9, 255]) @ [9, 9, 9, 0] @ concat (replicate 11 [9, 9, 9, 255]))
      (23 * 1))))
     = Some [0, 1, 2, 3, 4, 5, 6, 7, 8, 9, 10]
   \<and> selectLargest
      (concat (replicate 11 [9, 9, 9, 255]) @ [9, 9, 9, 0] @ concat (replicate 11 [9, 9, 9, 255]))
      23 1 ! (4 * 12 + 3) = 0
   \<and> selectLargest
      (concat (replicate 11 [9, 9, 9, 255]) @ [9, 9, 9, 0] @ concat (replicate 11 [9, 9, 9, 255]))
      23 1 ! (4 * 0 + 3) = 255"
proof -
  let ?img = "concat (replicate 11 [9, 9, 9, 255 :: byte]) @ [9, 9, 9, 0]
      @ concat (replicate 11 [9, 9, 9, 255])"
  let ?A = "[0, 1, 2, 3, 4, 5, 6, 7, 8, 9, 10 :: nat]"
  let ?B = "[12, 13, 14, 15, 16, 17, 18, 19, 20, 21, 22 :: nat]"
  have len: "length ?img = 4 * (23 * 1)" by code_simp
  have comps: "[?A, ?B] = findComponents 23 1 (opaqueMask ?img (23 * 1))" by code_simp
  have a0: "?img ! (4 * 0 + 3) = 255" by code_simp
  obtain k where k: "k < length [?A, ?B]" "fst (pickLargest [?A, ?B]) = Some ([?A, ?B] ! k)"
    and tie: "\<forall>j < length [?A, ?B]. j \<noteq> k \<and> length ([?A, ?B] ! j) = length ([?A, ?B] ! k)
            \<longrightarrow> k < j \<and> hd ([?A, ?B] ! k) < hd ([?A, ?B] ! j)"
    and other: "\<forall>j < length [?A, ?B]. j \<noteq> k \<longrightarrow>
            (\<forall>i \<in> set ([?A, ?B] ! j). selectLargest ?img 23 1 ! (4 * i + 3) = 0)"
    and kept: "\<forall>i \<in> set ([?A, ?B] ! k).
            selectLargest ?img 23 1 ! (4 * i + 3) = ?img ! (4 * i + 3)"
    using largest_component_first_in_scan_order [OF len comps] by blast
  have "k = 0"
  proof (rule ccontr)
    assume "k \<noteq> 0"
    then have "k = 1" using k(1) by simp
    then show False using tie by auto
  qed
  then have k0: "k = 0" .
  have j1: "(1::nat) < length [?A, ?B]" and nk: "1 \<noteq> k" using k0 by simp_all
  have m12: "12 \<in> set ([?A, ?B] ! 1)" by simp
  have m0: "0 \<in> set ([?A, ?B] ! k)" unfolding k0 by simp
  have p: "fst (pickLargest [?A, ?B]) = Some ?A" using k(2) unfolding k0 by simp
  have o: "selectLargest ?img 23 1 ! (4 * 12 + 3) = 0"
    using other [rule_format, OF j1 nk m12] .
  have c: "selectLargest ?img 23 1 ! (4 * 0 + 3) = 255"
    using kept [rule_format, OF m0] unfolding a0 .
  show ?thesis
    unfolding comps [symmetric] using p o c by (intro conjI)
qed

lemma foldl_min_Min: "foldl min a vs = Min (insert a (set vs))" for a :: real
proof (induction vs arbitrary: a)
  case Nil
  then show ?case by simp
next
  case (Cons v vs)
  have "Min (insert (min a v) (set vs)) = Min (insert a (insert v (set vs)))"
  proof (cases "set vs = {}")
    case True
    then show ?thesis by (simp add: min.commute)
  next
    case False
    then show ?thesis by (simp add: min.assoc)
  qed
  with Cons show ?case by simp
qed

lemma foldl_min_le_init: "foldl min a vs \<le> a" for a :: real
  by (simp add: foldl_min_Min)



lemma length_relaxed [simp]: "length (relaxed df i nbrs) = length df"
  by (simp add: relaxed_def)


lemma relaxed_le: "relaxed df i nbrs ! k \<le> df ! k"
proof (cases "k = i \<and> i < length df")
  case True
  then show ?thesis by (simp add: relaxed_def foldl_min_le_init)
next
  case False
  then show ?thesis by (cases "i < length df") (auto simp: relaxed_def list_update_beyond)
qed




lemma pass_Nil [simp]: "pass nb [] df = df"
  by (simp add: pass_def)

lemma pass_snoc [simp]: "pass nb (xs @ [i]) df = relaxed (pass nb xs df) i (nb i)"
  by (simp add: pass_def)

lemma length_pass [simp]: "length (pass nb order df) = length df"
  by (induction order rule: rev_induct) simp_all

lemma pass_le: "pass nb order df ! k \<le> df ! k"
proof (induction order rule: rev_induct)
  case Nil
  then show ?case by simp
next
  case (snoc i order)
  have "relaxed (pass nb order df) i (nb i) ! k \<le> pass nb order df ! k" by (rule relaxed_le)
  with snoc show ?case by simp
qed





section \<open>The chamfer norm\<close>







lemma cN_zero [simp]: "cN 0 0 = 0"
  by (simp add: cN_def)










section \<open>Cells, neighbours and the distance to the seed\<close>












section \<open>The four passes as relaxation passes\<close>












lemma relax_as_relaxed: "relax i j w df = relaxed df i [(j, w)]"
  by (simp add: relax_def relaxed_def)






section \<open>Validity of the neighbour lists\<close>









section \<open>The neighbour that accounts for the distance\<close>








section \<open>Two passes around a single seed\<close>


















end
